theory Spec2Isabelle
  imports Main
begin

section \<open>Grid Snake: the data model\<close>

text \<open>
  The source is \<^verbatim>\<open>src/grid_snake.py\<close>. A grid point is a pair of Python integers
  (unbounded, possibly negative), the grid size is such a pair as well.
\<close>

type_synonym GridPt = "int \<times> int"

definition search_dirns :: "GridPt list" where
  "search_dirns = [(1, 0), (-1, 0), (0, 1), (0, -1)]"

text \<open>
  The exceptions of the source. \<open>ValueError\<close> carries the message of the
  \<^verbatim>\<open>raise\<close> statement. \<open>IndexError\<close> is what numpy and a Python list raise for an
  index out of range. Numpy accepts an index \<open>i\<close> with \<open>- n \<le> i < 0\<close> and silently reads the
  cell \<open>i + n\<close>; the model reports such an access as the fault \<open>NegativeIndex\<close> instead,
  so that "the wrap-around is never taken" is a statement about results. On every run without
  that fault the model and numpy agree.
\<close>

datatype error = ValueError string | IndexError | NegativeIndex

subsection \<open>Two-dimensional numpy arrays\<close>

record 'a ndarray =
  shape :: GridPt
  data :: "'a list list"

text \<open>\<^verbatim>\<open>np.zeros(size, dtype=bool)\<close> and \<^verbatim>\<open>np.full(size, ' ', dtype=str)\<close>.\<close>

definition np_full :: "GridPt \<Rightarrow> 'a \<Rightarrow> error + 'a ndarray" where
  "np_full sz x =
     (if fst sz < 0 \<or> snd sz < 0 then Inl (ValueError ''negative dimensions are not allowed'')
      else Inr \<lparr>shape = sz, data = replicate (nat (fst sz)) (replicate (nat (snd sz)) x)\<rparr>)"

text \<open>One index \<open>i\<close> along an axis of length \<open>n\<close>.\<close>

definition np_index :: "int \<Rightarrow> int \<Rightarrow> error + nat" where
  "np_index n i =
     (if 0 \<le> i \<and> i < n then Inr (nat i)
      else if - n \<le> i \<and> i < 0 then Inl NegativeIndex
      else Inl IndexError)"

text \<open>\<^verbatim>\<open>a[*pos]\<close> read and \<^verbatim>\<open>a[*pos] = x\<close>.\<close>

definition np_get :: "'a ndarray \<Rightarrow> GridPt \<Rightarrow> error + 'a" where
  "np_get a pos =
     (case np_index (fst (shape a)) (fst pos) of
        Inl e \<Rightarrow> Inl e
      | Inr i \<Rightarrow>
          (case np_index (snd (shape a)) (snd pos) of
             Inl e \<Rightarrow> Inl e
           | Inr j \<Rightarrow> Inr (data a ! i ! j)))"

definition np_set :: "'a ndarray \<Rightarrow> GridPt \<Rightarrow> 'a \<Rightarrow> error + 'a ndarray" where
  "np_set a pos x =
     (case np_index (fst (shape a)) (fst pos) of
        Inl e \<Rightarrow> Inl e
      | Inr i \<Rightarrow>
          (case np_index (snd (shape a)) (snd pos) of
             Inl e \<Rightarrow> Inl e
           | Inr j \<Rightarrow> Inr (a\<lparr>data := (data a)[i := (data a ! i)[j := x]]\<rparr>)))"

subsection \<open>Misc. functions\<close>

definition valid_pos :: "GridPt \<Rightarrow> GridPt \<Rightarrow> bool" where
  "valid_pos pos sz = ((0 \<le> fst pos \<and> fst pos < fst sz) \<and> (0 \<le> snd pos \<and> snd pos < snd sz))"

text \<open>Python's \<^verbatim>\<open>str\<close> of an integer and of a pair, for the messages of the errors.\<close>

fun str_nat :: "nat \<Rightarrow> string" where
  "str_nat n =
     (if n < 10 then [char_of (48 + n)] else str_nat (n div 10) @ [char_of (48 + n mod 10)])"

definition str_int :: "int \<Rightarrow> string" where
  "str_int i = (if i < 0 then CHR ''-'' # str_nat (nat (- i)) else str_nat (nat i))"

definition str_pt :: "GridPt \<Rightarrow> string" where
  "str_pt p = ''('' @ str_int (fst p) @ '', '' @ str_int (snd p) @ '')''"

section \<open>The solvers\<close>

subsection \<open>The recursive solver\<close>

text \<open>
  \<^verbatim>\<open>_recursive\<close> mutates \<^verbatim>\<open>visited\<close> and \<^verbatim>\<open>path\<close> in place; the model passes
  both as a state and returns the state with the result.
\<close>

record search_state =
  visited :: "bool ndarray"
  path :: "GridPt list"

type_synonym rec_result = "(error + bool \<times> search_state) option"

text \<open>
  The loop \<^verbatim>\<open>for \<delta> in _search_dirns: ... if _recursive(next_pos, ...): return True\<close>.
  \<open>call\<close> is the recursive call; the state a failed call leaves is the state the next one
  starts from. The result \<open>False\<close> means the loop fell through.
\<close>

fun try_dirns ::
  "(GridPt \<Rightarrow> GridPt \<Rightarrow> search_state \<Rightarrow> rec_result) \<Rightarrow>
   GridPt \<Rightarrow> GridPt \<Rightarrow> GridPt list \<Rightarrow> search_state \<Rightarrow> rec_result" where
  "try_dirns call pos end_pos [] st = Some (Inr (False, st))"
| "try_dirns call pos end_pos (\<delta> # \<delta>s) st =
     (let next_pos = (fst pos + fst \<delta>, snd pos + snd \<delta>) in
      case call next_pos end_pos st of
        None \<Rightarrow> None
      | Some (Inl e) \<Rightarrow> Some (Inl e)
      | Some (Inr (True, st')) \<Rightarrow> Some (Inr (True, st'))
      | Some (Inr (False, st')) \<Rightarrow> try_dirns call pos end_pos \<delta>s st')"

text \<open>
  The first argument is the number of nested activations of \<^verbatim>\<open>_recursive\<close> the call may
  still open, itself included (the recursion depth left; Python bounds it by its recursion
  limit). \<open>None\<close> says that this depth did not suffice.
\<close>

primrec recursive :: "nat \<Rightarrow> GridPt \<Rightarrow> GridPt \<Rightarrow> search_state \<Rightarrow> rec_result" where
  "recursive 0 pos end_pos st = None"
| "recursive (Suc depth) pos end_pos st =
     (let sz = shape (visited st) in
      if \<not> valid_pos pos sz then Some (Inr (False, st))
      else
        (case np_get (visited st) pos of
           Inl e \<Rightarrow> Some (Inl e)
         | Inr True \<Rightarrow> Some (Inr (False, st))
         | Inr False \<Rightarrow>
             (case np_set (visited st) pos True of
                Inl e \<Rightarrow> Some (Inl e)
              | Inr v1 \<Rightarrow>
                  (let st1 = \<lparr>visited = v1, path = path st @ [pos]\<rparr> in
                   if pos = end_pos \<and> int (length (path st1)) = fst sz * snd sz
                   then Some (Inr (True, st1))
                   else
                     (case try_dirns (recursive depth) pos end_pos search_dirns st1 of
                        None \<Rightarrow> None
                      | Some (Inl e) \<Rightarrow> Some (Inl e)
                      | Some (Inr (True, st2)) \<Rightarrow> Some (Inr (True, st2))
                      | Some (Inr (False, st2)) \<Rightarrow>
                          (case np_set (visited st2) pos False of
                             Inl e \<Rightarrow> Some (Inl e)
                           | Inr v3 \<Rightarrow>
                               (if path st2 = [] then Some (Inl IndexError)
                                else Some (Inr (False,
                                       \<lparr>visited = v3, path = butlast (path st2)\<rparr>)))))))))"

subsection \<open>The non-recursive solver\<close>

text \<open>
  The state of the \<^verbatim>\<open>while\<close> loop. \<^verbatim>\<open>path_dirn\<close> holds indices into
  \<^verbatim>\<open>_search_dirns\<close>; they start at 0 and are only ever incremented, so they are natural
  numbers here. Both stacks grow at the end, as Python's \<^verbatim>\<open>append\<close> and \<^verbatim>\<open>pop\<close> do.
\<close>

record nr_state = search_state +
  path_dirn :: "nat list"

definition n_dirns :: nat where
  "n_dirns = length search_dirns"

text \<open>\<^verbatim>\<open>path_dirn[-1] += 1\<close>\<close>

definition advance_dirn :: "nat list \<Rightarrow> nat list" where
  "advance_dirn ds = butlast ds @ [last ds + 1]"

text \<open>
  One iteration of the \<^verbatim>\<open>while True\<close> loop: \<open>Inl r\<close> when the iteration returns \<open>r\<close>
  (or raises), \<open>Inr st'\<close> when it ends in the state \<open>st'\<close> and the loop goes on.
\<close>

definition nr_step :: "GridPt \<Rightarrow> GridPt \<Rightarrow> nr_state \<Rightarrow> (error + GridPt list) + nr_state" where
  "nr_step end_pos sz st =
     (if path st = [] then Inl (Inl IndexError)
      else
        let pos = last (path st) in
        if pos = end_pos \<and> int (length (path st)) = fst sz * snd sz then Inl (Inr (path st))
        else if path_dirn st = [] then Inl (Inl IndexError)
        else if last (path_dirn st) \<ge> n_dirns then
          (case np_set (visited st) pos False of
             Inl e \<Rightarrow> Inl (Inl e)
           | Inr v \<Rightarrow>
               let path' = butlast (path st); path_dirn' = butlast (path_dirn st) in
               if path' = [] then Inl (Inr [])
               else if path_dirn' = [] then Inl (Inl IndexError)
               else Inr \<lparr>visited = v, path = path', path_dirn = advance_dirn path_dirn'\<rparr>)
        else
          let \<delta> = search_dirns ! last (path_dirn st);
              next_pos = (fst pos + fst \<delta>, snd pos + snd \<delta>)
          in
          if \<not> valid_pos next_pos sz then Inr (st\<lparr>path_dirn := advance_dirn (path_dirn st)\<rparr>)
          else
            case np_get (visited st) next_pos of
              Inl e \<Rightarrow> Inl (Inl e)
            | Inr True \<Rightarrow> Inr (st\<lparr>path_dirn := advance_dirn (path_dirn st)\<rparr>)
            | Inr False \<Rightarrow>
                (case np_set (visited st) next_pos True of
                   Inl e \<Rightarrow> Inl (Inl e)
                 | Inr v \<Rightarrow>
                     Inr \<lparr>visited = v, path = path st @ [next_pos],
                          path_dirn = path_dirn st @ [0]\<rparr>))"

text \<open>The loop itself: \<open>None\<close> when it never returns.\<close>

partial_function (option) nr_loop :: "GridPt \<Rightarrow> GridPt \<Rightarrow> nr_state \<Rightarrow> (error + GridPt list) option"
  where
  "nr_loop end_pos sz st =
     (case nr_step end_pos sz st of
        Inl r \<Rightarrow> Some r
      | Inr st' \<Rightarrow> nr_loop end_pos sz st')"

declare nr_loop.simps [code]

definition nr_init :: "GridPt \<Rightarrow> GridPt \<Rightarrow> error + nr_state" where
  "nr_init start_pos sz =
     (case np_full sz False of
        Inl e \<Rightarrow> Inl e
      | Inr v0 \<Rightarrow>
          (case np_set v0 start_pos True of
             Inl e \<Rightarrow> Inl e
           | Inr v \<Rightarrow> Inr \<lparr>visited = v, path = [start_pos], path_dirn = [0]\<rparr>))"

definition non_recursive :: "GridPt \<Rightarrow> GridPt \<Rightarrow> GridPt \<Rightarrow> (error + GridPt list) option" where
  "non_recursive start_pos end_pos sz =
     (case nr_init start_pos sz of
        Inl e \<Rightarrow> Some (Inl e)
      | Inr st \<Rightarrow> nr_loop end_pos sz st)"

subsection \<open>The entry point\<close>

text \<open>
  \<open>depth\<close> is the recursion depth available to the recursive method (see \<open>recursive\<close>); the
  non-recursive method does not use it. The result is \<open>None\<close> when the call does not return,
  \<open>Some (Inl e)\<close> when it raises \<open>e\<close> and \<open>Some (Inr p)\<close> when it returns the list \<open>p\<close>.
\<close>

definition rec_init :: "GridPt \<Rightarrow> error + search_state" where
  "rec_init sz =
     (case np_full sz False of
        Inl e \<Rightarrow> Inl e
      | Inr v \<Rightarrow> Inr \<lparr>visited = v, path = []\<rparr>)"

definition solve_snake ::
  "nat \<Rightarrow> GridPt \<Rightarrow> GridPt \<Rightarrow> GridPt \<Rightarrow> string \<Rightarrow> (error + GridPt list) option" where
  "solve_snake depth start_pos end_pos sz method =
     (if \<not> valid_pos start_pos sz
      then Some (Inl (ValueError (''Invalid start position: '' @ str_pt start_pos)))
      else if \<not> valid_pos end_pos sz
      then Some (Inl (ValueError (''Invalid end position: '' @ str_pt end_pos)))
      else if start_pos = end_pos
      then Some (Inl (ValueError ''Start and end positions must be different.''))
      else if method = ''recursive'' then
        (case rec_init sz of
           Inl e \<Rightarrow> Some (Inl e)
         | Inr st0 \<Rightarrow>
             (case recursive depth start_pos end_pos st0 of
                None \<Rightarrow> None
              | Some (Inl e) \<Rightarrow> Some (Inl e)
              | Some (Inr (success, st)) \<Rightarrow> Some (Inr (if success then path st else []))))
      else if method = ''non-recursive'' then non_recursive start_pos end_pos sz
      else Some (Inl (ValueError (''Unknown method: '' @ method))))"

section \<open>The renderer\<close>

text \<open>
  \<^verbatim>\<open>print_path\<close> draws into a numpy array of one-character strings. A character is its
  Unicode code point here: the space, the white circle U+25CB, the letters S and E, and the
  arrows U+2193 (down), U+2191 (up), U+2192 (right) and U+2190 (left).
\<close>

type_synonym uchar = int

abbreviation chr_space :: uchar where "chr_space \<equiv> 32"
abbreviation chr_circle :: uchar where "chr_circle \<equiv> 9675"
abbreviation chr_S :: uchar where "chr_S \<equiv> 83"
abbreviation chr_E :: uchar where "chr_E \<equiv> 69"
abbreviation chr_down :: uchar where "chr_down \<equiv> 8595"
abbreviation chr_up :: uchar where "chr_up \<equiv> 8593"
abbreviation chr_right :: uchar where "chr_right \<equiv> 8594"
abbreviation chr_left :: uchar where "chr_left \<equiv> 8592"

text \<open>
  The slice assignment \<^verbatim>\<open>a[0:n0:si, 0:n1:sj] = x\<close>, where \<open>n0\<close> and \<open>n1\<close> are the lengths
  of the two axes of \<open>a\<close>: every cell whose row index is a multiple of \<open>si\<close> and whose column
  index is a multiple of \<open>sj\<close> becomes \<open>x\<close>.
\<close>

definition np_set_strided :: "'a ndarray \<Rightarrow> nat \<Rightarrow> nat \<Rightarrow> 'a \<Rightarrow> 'a ndarray" where
  "np_set_strided a si sj x =
     a\<lparr>data :=
         map (\<lambda>i. map (\<lambda>j. if i mod si = 0 \<and> j mod sj = 0 then x else data a ! i ! j)
                     [0..<length (data a ! i)])
             [0..<length (data a)]\<rparr>"

text \<open>
  The loop \<^verbatim>\<open>for pt1, pt2 in zip(path, path[1:])\<close> with its \<^verbatim>\<open>match\<close> statement; a
  difference that is none of the four directions draws nothing.
\<close>

fun draw_edges :: "GridPt list \<Rightarrow> uchar ndarray \<Rightarrow> error + uchar ndarray" where
  "draw_edges (pt1 # pt2 # rest) chrs =
     (let \<delta> = (fst pt2 - fst pt1, snd pt2 - snd pt1);
          symbol_pos = (fst pt1 * 2 + fst \<delta>, snd pt1 * 4 + snd \<delta> * 2);
          drawn =
            (if \<delta> = (1, 0) then np_set chrs symbol_pos chr_down
             else if \<delta> = (-1, 0) then np_set chrs symbol_pos chr_up
             else if \<delta> = (0, 1) then np_set chrs symbol_pos chr_right
             else if \<delta> = (0, -1) then np_set chrs symbol_pos chr_left
             else Inr chrs)
      in case drawn of
           Inl e \<Rightarrow> Inl e
         | Inr chrs' \<Rightarrow> draw_edges (pt2 # rest) chrs')"
| "draw_edges pts chrs = Inr chrs"

text \<open>
  The result is the list of the lines printed: an empty line, one line for each row of the
  array, and an empty line. \<^verbatim>\<open>path[0]\<close> raises \<open>IndexError\<close> on the empty list.
\<close>

definition print_path :: "GridPt list \<Rightarrow> GridPt \<Rightarrow> error + uchar list list" where
  "print_path pts sz =
     (let chrs_size = (2 * fst sz - 1, 4 * snd sz - 3) in
      case np_full chrs_size chr_space of
        Inl e \<Rightarrow> Inl e
      | Inr chrs0 \<Rightarrow>
          (let chrs1 = np_set_strided chrs0 2 4 chr_circle in
           if pts = [] then Inl IndexError
           else
             (case np_set chrs1 (fst (hd pts) * 2, snd (hd pts) * 4) chr_S of
                Inl e \<Rightarrow> Inl e
              | Inr chrs2 \<Rightarrow>
                  (case np_set chrs2 (fst (last pts) * 2, snd (last pts) * 4) chr_E of
                     Inl e \<Rightarrow> Inl e
                   | Inr chrs3 \<Rightarrow>
                       (case draw_edges pts chrs3 of
                          Inl e \<Rightarrow> Inl e
                        | Inr chrs4 \<Rightarrow> Inr ([[]] @ data chrs4 @ [[]]))))))"

section \<open>Specification vocabulary\<close>

text \<open>
  Consecutive cells of a path differ by one of the four search directions, and a Hamiltonian
  path of the grid from \<open>start_pos\<close> to \<open>end_pos\<close>: it has as many cells as the grid,
  visits every cell of the grid, none twice, and moves by one search direction at a time.
\<close>

fun unit_steps :: "GridPt list \<Rightarrow> bool" where
  "unit_steps (a # b # rest) =
     ((fst b - fst a, snd b - snd a) \<in> set search_dirns \<and> unit_steps (b # rest))"
| "unit_steps _ = True"

definition hamiltonian :: "GridPt \<Rightarrow> GridPt \<Rightarrow> GridPt \<Rightarrow> GridPt list \<Rightarrow> bool" where
  "hamiltonian sz start_pos end_pos p \<longleftrightarrow>
     int (length p) = fst sz * snd sz \<and> p \<noteq> [] \<and> hd p = start_pos \<and> last p = end_pos \<and>
     distinct p \<and> set p = {c. valid_pos c sz} \<and> unit_steps p"

text \<open>
  The invariant of the visited array: a cell of the grid is marked if and only if it is on the
  path. It is stated for the state of either solver.
\<close>

definition visited_iff_on_path :: "GridPt \<Rightarrow> 'a search_state_scheme \<Rightarrow> bool" where
  "visited_iff_on_path sz st \<longleftrightarrow>
     (\<forall>c. valid_pos c sz \<longrightarrow> np_get (visited st) c = Inr (c \<in> set (path st)))"

text \<open>
  The observation points of the non-recursive solver are the states between two iterations of
  its loop: \<open>nr_next\<close> relates the state before an iteration to the state after it, and the
  states the loop passes through are those its reflexive transitive closure reaches from the
  initial state.
\<close>

definition nr_next :: "GridPt \<Rightarrow> GridPt \<Rightarrow> nr_state \<Rightarrow> nr_state \<Rightarrow> bool" where
  "nr_next end_pos sz st st' \<longleftrightarrow> nr_step end_pos sz st = Inr st'"

text \<open>
  The observation points of the recursive solver are the entry of each call of
  \<^verbatim>\<open>_recursive\<close>, the point after it has marked and appended its position, and its exit
  after it has backtracked. \<open>observed depth pos end_pos st\<close> lists the states at these points
  during the call \<open>recursive depth pos end_pos st\<close>, nested calls included, in the order
  of execution; \<open>obs_dirns\<close> does so for the loop over the directions, each nested call
  starting from the state the failed call before it has left.
\<close>

fun obs_dirns ::
  "(GridPt \<Rightarrow> GridPt \<Rightarrow> search_state \<Rightarrow> rec_result) \<Rightarrow>
   (GridPt \<Rightarrow> GridPt \<Rightarrow> search_state \<Rightarrow> search_state list) \<Rightarrow>
   GridPt \<Rightarrow> GridPt \<Rightarrow> GridPt list \<Rightarrow> search_state \<Rightarrow> search_state list" where
  "obs_dirns call obs pos end_pos [] st = []"
| "obs_dirns call obs pos end_pos (\<delta> # \<delta>s) st =
     (let next_pos = (fst pos + fst \<delta>, snd pos + snd \<delta>) in
      obs next_pos end_pos st @
      (case call next_pos end_pos st of
         Some (Inr (False, st')) \<Rightarrow> obs_dirns call obs pos end_pos \<delta>s st'
       | _ \<Rightarrow> []))"

primrec observed :: "nat \<Rightarrow> GridPt \<Rightarrow> GridPt \<Rightarrow> search_state \<Rightarrow> search_state list" where
  "observed 0 pos end_pos st = []"
| "observed (Suc depth) pos end_pos st =
     st #
     (let sz = shape (visited st) in
      if \<not> valid_pos pos sz then []
      else
        (case np_get (visited st) pos of
           Inl e \<Rightarrow> []
         | Inr True \<Rightarrow> []
         | Inr False \<Rightarrow>
             (case np_set (visited st) pos True of
                Inl e \<Rightarrow> []
              | Inr v1 \<Rightarrow>
                  (let st1 = \<lparr>visited = v1, path = path st @ [pos]\<rparr> in
                   st1 #
                   (if pos = end_pos \<and> int (length (path st1)) = fst sz * snd sz then []
                    else
                      obs_dirns (recursive depth) (observed depth) pos end_pos search_dirns st1 @
                      (case recursive (Suc depth) pos end_pos st of
                         Some (Inr (False, st3)) \<Rightarrow> [st3]
                       | _ \<Rightarrow> []))))))"

section \<open>Proof devices\<close>

text \<open>
  The visited array in which exactly the cells of \<open>p\<close> are marked, and the states of the two
  solvers built on it. Every state the solvers reach has this form.
\<close>

definition marks :: "GridPt \<Rightarrow> GridPt list \<Rightarrow> bool ndarray" where
  "marks sz p =
     \<lparr>shape = sz,
      data = map (\<lambda>i. map (\<lambda>j. (int i, int j) \<in> set p) [0..<nat (snd sz)]) [0..<nat (fst sz)]\<rparr>"

definition canon :: "GridPt \<Rightarrow> GridPt list \<Rightarrow> search_state" where
  "canon sz p = \<lparr>visited = marks sz p, path = p\<rparr>"

definition ncanon :: "GridPt \<Rightarrow> GridPt list \<Rightarrow> nat list \<Rightarrow> nr_state" where
  "ncanon sz p ds = \<lparr>visited = marks sz p, path = p, path_dirn = ds\<rparr>"

text \<open>
  For the renderer: an array of the shape \<open>shp\<close> whose rows all have the right length, and
  an array in which the character \<open>x\<close> stands at the position \<open>q\<close> and nowhere else.
\<close>

definition wf_arr :: "'a ndarray \<Rightarrow> GridPt \<Rightarrow> bool" where
  "wf_arr a shp \<longleftrightarrow>
     shape a = shp \<and> 0 \<le> fst shp \<and> 0 \<le> snd shp \<and> length (data a) = nat (fst shp) \<and>
     (\<forall>row\<in>set (data a). length row = nat (snd shp))"

definition only_at :: "'a ndarray \<Rightarrow> GridPt \<Rightarrow> 'a \<Rightarrow> nat \<times> nat \<Rightarrow> bool" where
  "only_at a shp x q \<longleftrightarrow>
     (\<forall>i<nat (fst shp). \<forall>j<nat (snd shp). (data a ! i ! j = x) = ((i, j) = q))"

text \<open>
  The character \<open>x\<close> stands at the place where the renderer puts the grid point \<open>g\<close>
  (row \<open>2 * fst g\<close>, column \<open>4 * snd g\<close>) and nowhere else.
\<close>

definition marked_at :: "'a ndarray \<Rightarrow> GridPt \<Rightarrow> 'a \<Rightarrow> GridPt \<Rightarrow> bool" where
  "marked_at a shp x g \<longleftrightarrow>
     0 \<le> fst g \<and> 0 \<le> snd g \<and> only_at a shp x (nat (2 * fst g), nat (4 * snd g))"

primrec first_some :: "'a option list \<Rightarrow> 'a option" where
  "first_some [] = None"
| "first_some (x # xs) = (case x of Some y \<Rightarrow> Some y | None \<Rightarrow> first_some xs)"

function hsearch :: "GridPt \<Rightarrow> GridPt \<Rightarrow> GridPt \<Rightarrow> GridPt list \<Rightarrow> GridPt list option" where
  "hsearch sz e pos p =
     (if \<not> valid_pos pos sz \<or> pos \<in> set p then None
      else if pos = e \<and> int (length (p @ [pos])) = fst sz * snd sz then Some (p @ [pos])
      else first_some
             (map (\<lambda>\<delta>. hsearch sz e (fst pos + fst \<delta>, snd pos + snd \<delta>) (p @ [pos])) search_dirns))"
  by pat_completeness auto
termination
proof (relation "measure (\<lambda>(sz, e, pos, p). card ({c. valid_pos c sz} - set p))", goal_cases)
  case 1
  show ?case by simp
next
  case (2 sz e pos p \<delta>)
  have "{c. valid_pos c sz} \<subseteq> {0..<fst sz} \<times> {0..<snd sz}"
    by (auto simp: valid_pos_def)
  then have fin: "finite ({c. valid_pos c sz} - set p)"
    by (meson finite_Diff finite_SigmaI finite_atLeastLessThan_int finite_subset)
  have mem: "pos \<in> {c. valid_pos c sz} - set p"
    using 2 by simp
  have eq: "{c. valid_pos c sz} - set (p @ [pos]) = ({c. valid_pos c sz} - set p) - {pos}"
    by auto
  have "card (({c. valid_pos c sz} - set p) - {pos}) < card ({c. valid_pos c sz} - set p)"
    using fin mem by (rule card_Diff1_less)
  then have "card ({c. valid_pos c sz} - set (p @ [pos])) < card ({c. valid_pos c sz} - set p)"
    by (simp only: eq)
  then show ?case by simp
qed

declare hsearch.simps [simp del]

section \<open>Canonical states\<close>

lemma np_full_marks: "0 \<le> fst sz \<Longrightarrow> 0 \<le> snd sz \<Longrightarrow> np_full sz False = Inr (marks sz [])"
  by (simp add: np_full_def marks_def list_eq_iff_nth_eq)

lemma np_get_marks: "valid_pos pos sz \<Longrightarrow> np_get (marks sz p) pos = Inr (pos \<in> set p)"
  by (cases pos) (simp add: np_get_def np_index_def marks_def valid_pos_def)

lemma np_set_marks_True:
  "valid_pos pos sz \<Longrightarrow> np_set (marks sz p) pos True = Inr (marks sz (p @ [pos]))"
  apply (cases pos)
  apply (simp add: np_set_def np_index_def marks_def valid_pos_def list_eq_iff_nth_eq nth_list_update)
  apply auto
  done

lemma np_set_marks_False:
  "valid_pos pos sz \<Longrightarrow> pos \<notin> set p \<Longrightarrow> np_set (marks sz (p @ [pos])) pos False = Inr (marks sz p)"
  apply (cases pos)
  apply (simp add: np_set_def np_index_def marks_def valid_pos_def list_eq_iff_nth_eq nth_list_update)
  apply auto
  done

lemma finite_grid: "finite {c. valid_pos c sz}"
proof -
  have "{c. valid_pos c sz} \<subseteq> {0..<fst sz} \<times> {0..<snd sz}"
    by (auto simp: valid_pos_def)
  then show ?thesis
    by (meson finite_SigmaI finite_atLeastLessThan_int finite_subset)
qed

lemma card_grid: "valid_pos c0 sz \<Longrightarrow> int (card {c. valid_pos c sz}) = fst sz * snd sz"
proof -
  assume v: "valid_pos c0 sz"
  have "{c. valid_pos c sz} = {0..<fst sz} \<times> {0..<snd sz}"
    by (auto simp: valid_pos_def)
  then have "card {c. valid_pos c sz} = nat (fst sz) * nat (snd sz)"
    by (simp add: card_cartesian_product)
  moreover have "0 \<le> fst sz" "0 \<le> snd sz"
    using v by (auto simp: valid_pos_def)
  ultimately show ?thesis by simp
qed

section \<open>The recursive solver computes the search\<close>

lemma try_dirns_refines:
  assumes "\<And>\<delta>. \<delta> \<in> set ds \<Longrightarrow>
     call (fst pos + fst \<delta>, snd pos + snd \<delta>) e st =
       Some (Inr (case h \<delta> of None \<Rightarrow> (False, st) | Some q \<Rightarrow> (True, f q)))"
  shows "try_dirns call pos e ds st =
     Some (Inr (case first_some (map h ds) of None \<Rightarrow> (False, st) | Some q \<Rightarrow> (True, f q)))"
  using assms
proof (induction ds)
  case Nil
  then show ?case by simp
next
  case (Cons \<delta> ds)
  have hd: "call (fst pos + fst \<delta>, snd pos + snd \<delta>) e st =
       Some (Inr (case h \<delta> of None \<Rightarrow> (False, st) | Some q \<Rightarrow> (True, f q)))"
    using Cons.prems by simp
  have tl: "try_dirns call pos e ds st =
     Some (Inr (case first_some (map h ds) of None \<Rightarrow> (False, st) | Some q \<Rightarrow> (True, f q)))"
    using Cons by simp
  show ?case
    by (cases "h \<delta>") (simp_all add: hd tl)
qed

lemma shape_marks [simp]: "shape (marks sz p) = sz"
  by (simp add: marks_def)

lemma canon_sel [simp]: "visited (canon sz p) = marks sz p" "path (canon sz p) = p"
  by (simp_all add: canon_def)

lemma recursive_refines:
  "card ({c. valid_pos c sz} - set p) < d \<Longrightarrow>
   recursive d pos e (canon sz p) =
     Some (Inr (case hsearch sz e pos p of
                  None \<Rightarrow> (False, canon sz p)
                | Some q \<Rightarrow> (True, canon sz q)))"
proof (induction sz e pos p arbitrary: d rule: hsearch.induct)
  case (1 sz e pos p)
  from "1.prems" obtain d' where d: "d = Suc d'"
    by (cases d) auto
  let ?p' = "p @ [pos]"
  let ?h = "\<lambda>\<delta>. hsearch sz e (fst pos + fst \<delta>, snd pos + snd \<delta>) ?p'"
  show ?case
  proof (cases "\<not> valid_pos pos sz \<or> pos \<in> set p")
    case True
    then have "hsearch sz e pos p = None"
      by (simp add: hsearch.simps)
    moreover have "recursive d pos e (canon sz p) = Some (Inr (False, canon sz p))"
      using True by (auto simp: d np_get_marks)
    ultimately show ?thesis by simp
  next
    case False
    then have v: "valid_pos pos sz" and n: "pos \<notin> set p" by auto
    have mk: "\<lparr>visited = marks sz ?p', path = ?p'\<rparr> = canon sz ?p'"
      by (simp add: canon_def)
    have unfold: "recursive d pos e (canon sz p) =
        (if pos = e \<and> int (length ?p') = fst sz * snd sz then Some (Inr (True, canon sz ?p'))
         else
          (case try_dirns (recursive d') pos e search_dirns (canon sz ?p') of
             None \<Rightarrow> None
           | Some (Inl e) \<Rightarrow> Some (Inl e)
           | Some (Inr (True, st2)) \<Rightarrow> Some (Inr (True, st2))
           | Some (Inr (False, st2)) \<Rightarrow>
               (case np_set (visited st2) pos False of
                  Inl e \<Rightarrow> Some (Inl e)
                | Inr v3 \<Rightarrow>
                    (if path st2 = [] then Some (Inl IndexError)
                     else Some (Inr (False, \<lparr>visited = v3, path = butlast (path st2)\<rparr>))))))"
      using v n by (simp add: d np_get_marks np_set_marks_True mk Let_def del: length_append)
    show ?thesis
    proof (cases "pos = e \<and> int (length ?p') = fst sz * snd sz")
      case True
      have "hsearch sz e pos p = Some ?p'"
        using v n by (subst hsearch.simps) (simp only: if_P[OF True] simp_thms if_False)
      moreover have "recursive d pos e (canon sz p) = Some (Inr (True, canon sz ?p'))"
        by (simp only: unfold if_P[OF True])
      ultimately show ?thesis by simp
    next
      case ns: False
      have hs: "hsearch sz e pos p = first_some (map ?h search_dirns)"
        using v n by (subst hsearch.simps) (simp only: if_not_P[OF ns] simp_thms if_False)
      have mem: "pos \<in> {c. valid_pos c sz} - set p"
        using v n by simp
      have "{c. valid_pos c sz} - set ?p' = ({c. valid_pos c sz} - set p) - {pos}"
        by auto
      then have "card ({c. valid_pos c sz} - set ?p') = card ({c. valid_pos c sz} - set p) - 1"
        using mem by (simp add: card_Diff_singleton)
      moreover have "0 < card ({c. valid_pos c sz} - set p)"
      proof -
        have "finite ({c. valid_pos c sz} - set p)"
          using finite_grid[of sz] by simp
        then show ?thesis
          using mem by (auto simp: card_gt_0_iff)
      qed
      ultimately have cd: "card ({c. valid_pos c sz} - set ?p') < d'"
        using "1.prems" d by linarith
      have calls: "recursive d' (fst pos + fst \<delta>, snd pos + snd \<delta>) e (canon sz ?p') =
          Some (Inr (case ?h \<delta> of None \<Rightarrow> (False, canon sz ?p') | Some q \<Rightarrow> (True, canon sz q)))"
        if "\<delta> \<in> set search_dirns" for \<delta>
        using "1.IH"[OF False ns that cd] .
      have tr: "try_dirns (recursive d') pos e search_dirns (canon sz ?p') =
          Some (Inr (case first_some (map ?h search_dirns) of
                       None \<Rightarrow> (False, canon sz ?p') | Some q \<Rightarrow> (True, canon sz q)))"
        by (rule try_dirns_refines) (rule calls)
      note unfold' = unfold[unfolded if_not_P[OF ns]]
      show ?thesis
      proof (cases "first_some (map ?h search_dirns)")
        case None
        show ?thesis
          by (simp add: unfold' tr None hs np_set_marks_False[OF v n] canon_def[symmetric])
      next
        case (Some q)
        show ?thesis
          by (simp add: unfold' tr Some hs)
      qed
    qed
  qed
qed

section \<open>The loop of the non-recursive solver simulates the search\<close>

lemma ncanon_sel [simp]:
  "visited (ncanon sz p ds) = marks sz p" "path (ncanon sz p ds) = p"
  "path_dirn (ncanon sz p ds) = ds"
  by (simp_all add: ncanon_def)

lemma n_dirns_4: "n_dirns = 4"
  by (simp add: n_dirns_def search_dirns_def)

lemma advance_dirn_snoc [simp]: "advance_dirn (ds @ [k]) = ds @ [Suc k]"
  by (simp add: advance_dirn_def)

lemma nr_step_canon:
  assumes v: "valid_pos pos sz" and n: "pos \<notin> set p"
  shows "nr_step e sz (ncanon sz (p @ [pos]) (ds @ [k])) =
     (if pos = e \<and> int (length (p @ [pos])) = fst sz * snd sz then Inl (Inr (p @ [pos]))
      else if n_dirns \<le> k then
        (if p = [] then Inl (Inr [])
         else if ds = [] then Inl (Inl IndexError)
         else Inr (ncanon sz p (advance_dirn ds)))
      else
        (let nx = (fst pos + fst (search_dirns ! k), snd pos + snd (search_dirns ! k)) in
         if \<not> valid_pos nx sz \<or> nx \<in> set (p @ [pos])
         then Inr (ncanon sz (p @ [pos]) (ds @ [Suc k]))
         else Inr (ncanon sz ((p @ [pos]) @ [nx]) ((ds @ [k]) @ [0]))))"
proof -
  let ?nx = "(fst pos + fst (search_dirns ! k), snd pos + snd (search_dirns ! k))"
  have unset: "np_set (marks sz (p @ [pos])) pos False = Inr (marks sz p)"
    using v n by (rule np_set_marks_False)
  have get: "valid_pos ?nx sz \<Longrightarrow> np_get (marks sz (p @ [pos])) ?nx = Inr (?nx \<in> set (p @ [pos]))"
    by (rule np_get_marks)
  have set: "valid_pos ?nx sz \<Longrightarrow>
      np_set (marks sz (p @ [pos])) ?nx True = Inr (marks sz ((p @ [pos]) @ [?nx]))"
    by (rule np_set_marks_True)
  show ?thesis
    using unset get set
    by (auto simp add: nr_step_def Let_def ncanon_def advance_dirn_def simp del: length_append)
qed

lemma nr_loop_sim:
  "valid_pos pos sz \<Longrightarrow> pos \<notin> set p \<Longrightarrow> length ds = length p \<Longrightarrow>
   nr_loop e sz (ncanon sz (p @ [pos]) (ds @ [0])) =
     (case hsearch sz e pos p of
        Some q \<Rightarrow> Some (Inr q)
      | None \<Rightarrow> if p = [] then Some (Inr []) else nr_loop e sz (ncanon sz p (advance_dirn ds)))"
proof (induction sz e pos p arbitrary: ds rule: hsearch.induct)
  case (1 sz e pos p)
  note v = \<open>valid_pos pos sz\<close> and n = \<open>pos \<notin> set p\<close> and len = \<open>length ds = length p\<close>
  have guard: "\<not> (\<not> valid_pos pos sz \<or> pos \<in> set p)"
    using v n by simp
  let ?p' = "p @ [pos]"
  let ?nx = "\<lambda>\<delta>. (fst pos + fst \<delta>, snd pos + snd \<delta>)"
  let ?h = "\<lambda>\<delta>. hsearch sz e (?nx \<delta>) ?p'"
  let ?undo = "if p = [] then Some (Inr []) else nr_loop e sz (ncanon sz p (advance_dirn ds))"
  show ?case
  proof (cases "pos = e \<and> int (length ?p') = fst sz * snd sz")
    case True
    have "hsearch sz e pos p = Some ?p'"
      using v n by (subst hsearch.simps) (simp only: if_P[OF True] simp_thms if_False)
    moreover have "nr_loop e sz (ncanon sz ?p' (ds @ [0])) = Some (Inr ?p')"
      by (subst nr_loop.simps) (simp only: nr_step_canon[OF v n] if_P[OF True] sum.case)
    ultimately show ?thesis by simp
  next
    case ns: False
    have hs: "hsearch sz e pos p = first_some (map ?h search_dirns)"
      using v n by (subst hsearch.simps) (simp only: if_not_P[OF ns] simp_thms if_False)
    note stp = nr_step_canon[OF v n, of e, unfolded if_not_P[OF ns]]
    have Q: "nr_loop e sz (ncanon sz ?p' (ds @ [k])) =
        (case first_some (map ?h (drop k search_dirns)) of
           Some q \<Rightarrow> Some (Inr q)
         | None \<Rightarrow> ?undo)" if "k \<le> 4" for k
      using that
    proof (induction k rule: inc_induct)
      case base
      have "ds = [] \<longleftrightarrow> p = []"
        using len by auto
      then have "nr_loop e sz (ncanon sz ?p' (ds @ [4])) = ?undo"
        by (subst nr_loop.simps) (simp add: stp n_dirns_4)
      then show ?case
        by (simp add: search_dirns_def)
    next
      case (step k)
      then have k: "k < n_dirns"
        by (simp add: n_dirns_4)
      let ?\<delta> = "search_dirns ! k"
      have dr: "drop k search_dirns = ?\<delta> # drop (Suc k) search_dirns"
        using k by (simp add: Cons_nth_drop_Suc n_dirns_def)
      have mem: "?\<delta> \<in> set search_dirns"
        using k by (simp add: n_dirns_def)
      show ?case
      proof (cases "\<not> valid_pos (?nx ?\<delta>) sz \<or> ?nx ?\<delta> \<in> set ?p'")
        case True
        then have "?h ?\<delta> = None"
          by (subst hsearch.simps) simp
        moreover have "nr_loop e sz (ncanon sz ?p' (ds @ [k])) =
            nr_loop e sz (ncanon sz ?p' (ds @ [Suc k]))"
          using k True by (subst nr_loop.simps) (simp add: stp del: set_append)
        ultimately show ?thesis
          using step.IH by (simp add: dr)
      next
        case False
        then have v': "valid_pos (?nx ?\<delta>) sz" and n': "?nx ?\<delta> \<notin> set ?p'"
          by auto
        have "nr_loop e sz (ncanon sz ?p' (ds @ [k])) =
            nr_loop e sz (ncanon sz (?p' @ [?nx ?\<delta>]) ((ds @ [k]) @ [0]))"
          using k v' n' by (subst nr_loop.simps) (simp add: stp del: set_append)
        also have "\<dots> = (case ?h ?\<delta> of
              Some q \<Rightarrow> Some (Inr q)
            | None \<Rightarrow> nr_loop e sz (ncanon sz ?p' (ds @ [Suc k])))"
          using "1.IH"[OF guard ns mem v' n', of "ds @ [k]"] len
          by (cases "?h ?\<delta>") simp_all
        finally show ?thesis
          using step.IH by (cases "?h ?\<delta>") (simp_all add: dr)
      qed
    qed
    show ?thesis
      using Q[of 0] by (simp add: hs)
  qed
qed

section \<open>The search is sound and complete\<close>

lemma first_some_Some: "first_some xs = Some y \<Longrightarrow> Some y \<in> set xs"
  by (induction xs) (auto split: option.splits)

lemma first_some_None: "first_some xs = None \<Longrightarrow> x \<in> set xs \<Longrightarrow> x = None"
  by (induction xs) (auto split: option.splits)

lemma unit_steps_Cons:
  "ext \<noteq> [] \<Longrightarrow>
   unit_steps (a # ext) \<longleftrightarrow>
     (fst (hd ext) - fst a, snd (hd ext) - snd a) \<in> set search_dirns \<and> unit_steps ext"
  by (cases ext) simp_all

lemma hsearch_sound:
  "hsearch sz e pos p = Some q \<Longrightarrow> distinct p \<Longrightarrow>
   \<exists>ext. q = p @ ext \<and> ext \<noteq> [] \<and> hd ext = pos \<and> last ext = e \<and>
         int (length q) = fst sz * snd sz \<and> distinct q \<and>
         (\<forall>c\<in>set ext. valid_pos c sz) \<and> unit_steps ext"
proof (induction sz e pos p rule: hsearch.induct)
  case (1 sz e pos p)
  let ?p' = "p @ [pos]"
  let ?h = "\<lambda>\<delta>. hsearch sz e (fst pos + fst \<delta>, snd pos + snd \<delta>) ?p'"
  have guard: "\<not> (\<not> valid_pos pos sz \<or> pos \<in> set p)"
  proof
    assume "\<not> valid_pos pos sz \<or> pos \<in> set p"
    then have "hsearch sz e pos p = None"
      by (subst hsearch.simps) simp
    then show False
      using "1.prems"(1) by simp
  qed
  then have v: "valid_pos pos sz" and n: "pos \<notin> set p"
    by auto
  show ?case
  proof (cases "pos = e \<and> int (length ?p') = fst sz * snd sz")
    case True
    have "hsearch sz e pos p = Some ?p'"
      using v n by (subst hsearch.simps) (simp only: if_P[OF True] simp_thms if_False)
    then have q: "q = ?p'"
      using "1.prems"(1) by simp
    show ?thesis
      by (rule exI[of _ "[pos]"]) (use q True v n "1.prems"(2) in auto)
  next
    case ns: False
    have "hsearch sz e pos p = first_some (map ?h search_dirns)"
      using v n by (subst hsearch.simps) (simp only: if_not_P[OF ns] simp_thms if_False)
    then have "first_some (map ?h search_dirns) = Some q"
      using "1.prems"(1) by simp
    then have "Some q \<in> set (map ?h search_dirns)"
      by (rule first_some_Some)
    then obtain \<delta> where mem: "\<delta> \<in> set search_dirns" and h: "?h \<delta> = Some q"
      by auto
    have "distinct ?p'"
      using n "1.prems"(2) by simp
    from "1.IH"[OF guard ns mem h this]
    obtain ext where ext: "q = ?p' @ ext" "ext \<noteq> []"
      "hd ext = (fst pos + fst \<delta>, snd pos + snd \<delta>)" "last ext = e"
      "int (length q) = fst sz * snd sz" "distinct q"
      "\<forall>c\<in>set ext. valid_pos c sz" "unit_steps ext"
      by blast
    have "unit_steps (pos # ext)"
      using ext(2,3,8) mem by (simp add: unit_steps_Cons)
    then show ?thesis
      using ext v by (intro exI[of _ "pos # ext"]) simp
  qed
qed

lemma hsearch_complete:
  "hsearch sz e pos p = None \<Longrightarrow> ext \<noteq> [] \<Longrightarrow> hd ext = pos \<Longrightarrow> last ext = e \<Longrightarrow>
   int (length (p @ ext)) = fst sz * snd sz \<Longrightarrow> distinct (p @ ext) \<Longrightarrow>
   (\<forall>c\<in>set ext. valid_pos c sz) \<Longrightarrow> unit_steps ext \<Longrightarrow> False"
proof (induction sz e pos p arbitrary: ext rule: hsearch.induct)
  case (1 sz e pos p)
  let ?p' = "p @ [pos]"
  let ?h = "\<lambda>\<delta>. hsearch sz e (fst pos + fst \<delta>, snd pos + snd \<delta>) ?p'"
  from "1.prems"(2,3) obtain rest where ext: "ext = pos # rest"
    by (cases ext) auto
  have v: "valid_pos pos sz" and n: "pos \<notin> set p"
    using "1.prems"(6,7) ext by auto
  then have guard: "\<not> (\<not> valid_pos pos sz \<or> pos \<in> set p)"
    by simp
  have ns: "\<not> (pos = e \<and> int (length ?p') = fst sz * snd sz)"
  proof
    assume s: "pos = e \<and> int (length ?p') = fst sz * snd sz"
    have "hsearch sz e pos p = Some ?p'"
      using v n by (subst hsearch.simps) (simp only: if_P[OF s] simp_thms if_False)
    then show False
      using "1.prems"(1) by simp
  qed
  have hs: "hsearch sz e pos p = first_some (map ?h search_dirns)"
    using v n by (subst hsearch.simps) (simp only: if_not_P[OF ns] simp_thms if_False)
  have rest: "rest \<noteq> []"
  proof
    assume "rest = []"
    then have "pos = e \<and> int (length ?p') = fst sz * snd sz"
      using "1.prems"(4,5) ext by simp
    then show False
      using ns by simp
  qed
  define \<delta> where "\<delta> = (fst (hd rest) - fst pos, snd (hd rest) - snd pos)"
  have mem: "\<delta> \<in> set search_dirns" and us: "unit_steps rest"
    using "1.prems"(8) rest by (simp_all add: ext unit_steps_Cons \<delta>_def)
  have hd: "hd rest = (fst pos + fst \<delta>, snd pos + snd \<delta>)"
    by (simp add: \<delta>_def)
  have "?h \<delta> \<in> set (map ?h search_dirns)"
    using mem by simp
  moreover have "first_some (map ?h search_dirns) = None"
    using hs "1.prems"(1) by simp
  ultimately have none: "?h \<delta> = None"
    by (rule first_some_None[rotated])
  show ?case
    using "1.IH"[OF guard ns mem none rest hd] "1.prems"(4,5,6,7) us rest
    by (simp add: ext)
qed

lemma hsearch_hamiltonian:
  assumes "hsearch sz e s [] = Some q"
  shows "hamiltonian sz s e q"
proof -
  from hsearch_sound[OF assms]
  have q: "q \<noteq> []" "hd q = s" "last q = e" "int (length q) = fst sz * snd sz" "distinct q"
    "\<forall>c\<in>set q. valid_pos c sz" "unit_steps q"
    by auto
  have "valid_pos (hd q) sz"
    using q(1,6) by simp
  then have "int (card {c. valid_pos c sz}) = fst sz * snd sz"
    by (rule card_grid)
  then have "card {c. valid_pos c sz} = card (set q)"
    using q(4,5) by (simp add: distinct_card)
  moreover have "set q \<subseteq> {c. valid_pos c sz}"
    using q(6) by auto
  ultimately have "set q = {c. valid_pos c sz}"
    using finite_grid[of sz] by (simp add: card_subset_eq)
  then show ?thesis
    using q by (simp add: hamiltonian_def)
qed

lemma hsearch_no_hamiltonian:
  assumes "hsearch sz e s [] = None"
  shows "\<not> hamiltonian sz s e q"
proof
  assume h: "hamiltonian sz s e q"
  show False
    by (rule hsearch_complete[OF assms, of q]) (use h in \<open>auto simp: hamiltonian_def\<close>)
qed

section \<open>The entry point on valid requests\<close>

lemma rec_init_canon: "valid_pos c0 sz \<Longrightarrow> rec_init sz = Inr (canon sz [])"
  by (simp add: rec_init_def np_full_marks canon_def valid_pos_def)

lemma nr_init_canon: "valid_pos s sz \<Longrightarrow> nr_init s sz = Inr (ncanon sz [s] [0])"
  using np_set_marks_True[of s sz "[]"]
  by (simp add: nr_init_def np_full_marks ncanon_def valid_pos_def)

lemma solve_recursive:
  assumes "valid_pos s sz" and "valid_pos e sz" and "s \<noteq> e" and "fst sz * snd sz < int d"
  shows "solve_snake d s e sz ''recursive'' =
     Some (Inr (case hsearch sz e s [] of None \<Rightarrow> [] | Some q \<Rightarrow> q))"
proof -
  have "int (card ({c. valid_pos c sz} - set [])) = fst sz * snd sz"
    using card_grid[OF assms(1)] by simp
  then have "card ({c. valid_pos c sz} - set []) < d"
    using assms(4) by linarith
  then have "recursive d s e (canon sz []) =
      Some (Inr (case hsearch sz e s [] of
                   None \<Rightarrow> (False, canon sz [])
                 | Some q \<Rightarrow> (True, canon sz q)))"
    by (rule recursive_refines)
  then show ?thesis
    using assms(1-3)
    by (cases "hsearch sz e s []") (simp_all add: solve_snake_def rec_init_canon[OF assms(1)])
qed

lemma non_recursive_hsearch:
  assumes "valid_pos s sz"
  shows "non_recursive s e sz =
     Some (Inr (case hsearch sz e s [] of None \<Rightarrow> [] | Some q \<Rightarrow> q))"
proof -
  have "nr_loop e sz (ncanon sz ([] @ [s]) ([] @ [0])) =
     (case hsearch sz e s [] of
        Some q \<Rightarrow> Some (Inr q)
      | None \<Rightarrow> if ([]::GridPt list) = [] then Some (Inr [])
                else nr_loop e sz (ncanon sz [] (advance_dirn [])))"
    by (rule nr_loop_sim) (use assms in simp_all)
  then show ?thesis
    by (cases "hsearch sz e s []") (simp_all add: non_recursive_def nr_init_canon[OF assms])
qed

lemma solve_non_recursive:
  assumes "valid_pos s sz" and "valid_pos e sz" and "s \<noteq> e"
  shows "solve_snake d s e sz ''non-recursive'' =
     Some (Inr (case hsearch sz e s [] of None \<Rightarrow> [] | Some q \<Rightarrow> q))"
  using assms by (simp add: solve_snake_def non_recursive_hsearch)

section \<open>More recursion depth changes no result\<close>

lemma try_dirns_mono:
  assumes "\<And>p st r. call p e st = Some r \<Longrightarrow> call' p e st = Some r"
  shows "try_dirns call pos e ds st = Some r \<Longrightarrow> try_dirns call' pos e ds st = Some r"
proof (induction ds arbitrary: st)
  case Nil
  then show ?case by simp
next
  case (Cons \<delta> ds)
  let ?nx = "(fst pos + fst \<delta>, snd pos + snd \<delta>)"
  from Cons.prems obtain x where x: "call ?nx e st = Some x"
    by (cases "call ?nx e st") (simp_all add: Let_def)
  then have x': "call' ?nx e st = Some x"
    by (rule assms)
  show ?case
  proof (cases x)
    case (Inl err)
    then show ?thesis
      using Cons.prems x x' by (auto simp add: Let_def)
  next
    case (Inr bs)
    obtain b st' where bs: "bs = (b, st')"
      by (cases bs)
    show ?thesis
    proof (cases b)
      case True
      then show ?thesis
        using Cons.prems x x' Inr bs by (auto simp add: Let_def)
    next
      case False
      then have "try_dirns call pos e ds st' = Some r"
        using Cons.prems x Inr bs by (simp add: Let_def)
      then have "try_dirns call' pos e ds st' = Some r"
        by (rule Cons.IH)
      then show ?thesis
        using x' Inr bs False by (simp add: Let_def)
    qed
  qed
qed

lemma recursive_mono_Suc:
  "recursive d pos e st = Some r \<Longrightarrow> recursive (Suc d) pos e st = Some r"
proof (induction d arbitrary: pos st r)
  case 0
  then show ?case by simp
next
  case (Suc d)
  have m: "try_dirns (recursive d) pos e search_dirns st1 = Some t \<Longrightarrow>
      try_dirns (recursive (Suc d)) pos e search_dirns st1 = Some t" for st1 t
    by (rule try_dirns_mono[where call = "recursive d"]) (rule Suc.IH)
  show ?case
    using Suc.prems
    apply (simp only: recursive.simps(2)[of "Suc d"] recursive.simps(2)[of d] Let_def)
    apply (auto split: if_splits sum.splits bool.splits option.splits prod.splits dest!: m)
    done
qed

lemma recursive_mono:
  assumes "recursive d pos e st = Some r" and "d \<le> d'"
  shows "recursive d' pos e st = Some r"
  using assms(2,1)
proof (induction rule: dec_induct)
  case base
  then show ?case .
next
  case (step n)
  then show ?case
    by (simp only: recursive_mono_Suc)
qed

lemma recursive_canon_result:
  assumes "recursive d pos e (canon sz p) = Some x"
  shows "x = Inr (case hsearch sz e pos p of
                    None \<Rightarrow> (False, canon sz p)
                  | Some q \<Rightarrow> (True, canon sz q))"
proof -
  define D where "D = max d (Suc (card ({c. valid_pos c sz} - set p)))"
  have "recursive D pos e (canon sz p) = Some x"
    using assms by (rule recursive_mono) (simp add: D_def)
  moreover have "recursive D pos e (canon sz p) =
      Some (Inr (case hsearch sz e pos p of
                   None \<Rightarrow> (False, canon sz p)
                 | Some q \<Rightarrow> (True, canon sz q)))"
    by (rule recursive_refines) (simp add: D_def)
  ultimately show ?thesis by simp
qed

lemma solve_recursive_any:
  assumes "valid_pos s sz" and "valid_pos e sz" and "s \<noteq> e"
    and "solve_snake d s e sz ''recursive'' = Some r"
  shows "r = Inr (case hsearch sz e s [] of None \<Rightarrow> [] | Some q \<Rightarrow> q)"
proof -
  from assms obtain x where x: "recursive d s e (canon sz []) = Some x"
    by (cases "recursive d s e (canon sz [])")
      (simp_all add: solve_snake_def rec_init_canon[OF assms(1)])
  note res = recursive_canon_result[OF x]
  show ?thesis
    using assms x
    by (cases "hsearch sz e s []")
      (simp_all add: solve_snake_def rec_init_canon[OF assms(1)] res)
qed

lemma solve_snake_Inr:
  assumes "solve_snake d s e sz m = Some (Inr p)"
  shows "valid_pos s sz \<and> valid_pos e sz \<and> s \<noteq> e \<and> (m = ''recursive'' \<or> m = ''non-recursive'')"
  using assms by (auto simp: solve_snake_def split: if_splits)

lemma solve_snake_hsearch:
  assumes "solve_snake d s e sz m = Some (Inr p)"
  shows "p = (case hsearch sz e s [] of None \<Rightarrow> [] | Some q \<Rightarrow> q)"
proof -
  note v = solve_snake_Inr[OF assms]
  show ?thesis
  proof (cases "m = ''recursive''")
    case True
    then show ?thesis
      using solve_recursive_any[of s sz e d "Inr p"] v assms by simp
  next
    case False
    then have "m = ''non-recursive''"
      using v by simp
    then show ?thesis
      using solve_non_recursive[of s sz e d] v assms by simp
  qed
qed

lemma solve_snake_mono:
  assumes "solve_snake d s e sz m = Some r" and "d \<le> d'"
  shows "solve_snake d' s e sz m = Some r"
proof (cases "valid_pos s sz \<and> valid_pos e sz \<and> s \<noteq> e \<and> m = ''recursive''")
  case False
  then have "solve_snake d' s e sz m = solve_snake d s e sz m"
    by (auto simp: solve_snake_def)
  then show ?thesis
    using assms(1) by simp
next
  case True
  then have st0: "rec_init sz = Inr (canon sz [])"
    using rec_init_canon by blast
  from assms(1) True obtain x where x: "recursive d s e (canon sz []) = Some x"
    by (cases "recursive d s e (canon sz [])") (simp_all add: solve_snake_def st0)
  then have "recursive d' s e (canon sz []) = Some x"
    using assms(2) by (rule recursive_mono)
  then show ?thesis
    using assms(1) True x by (simp add: solve_snake_def st0)
qed

lemma solve_snake_error:
  assumes "solve_snake d s e sz m = Some (Inl err)"
  shows "\<exists>msg. err = ValueError msg"
proof (cases "valid_pos s sz \<and> valid_pos e sz \<and> s \<noteq> e")
  case False
  then show ?thesis
    using assms by (auto simp: solve_snake_def split: if_splits)
next
  case True
  show ?thesis
  proof (cases "m = ''recursive''")
    case r: True
    have "Inl err = Inr (case hsearch sz e s [] of None \<Rightarrow> [] | Some q \<Rightarrow> q)"
      using True assms by (intro solve_recursive_any[of s sz e d]) (simp_all add: r)
    then show ?thesis by simp
  next
    case nr: False
    show ?thesis
    proof (cases "m = ''non-recursive''")
      case True2: True
      then show ?thesis
        using solve_non_recursive[of s sz e d] True assms by simp
    next
      case False
      then show ?thesis
        using nr True assms by (auto simp add: solve_snake_def)
    qed
  qed
qed

lemma solve_snake_outcome:
  assumes "solve_snake d s e sz m = Some r"
  shows "(\<exists>p. r = Inr p) \<or> (\<exists>msg. r = Inl (ValueError msg))"
proof (cases r)
  case (Inl err)
  then show ?thesis
    using solve_snake_error[of d s e sz m err] assms by simp
next
  case (Inr p)
  then show ?thesis by simp
qed

lemma solve_snake_empty:
  assumes "solve_snake d s e sz m = Some (Inr [])"
  shows "hsearch sz e s [] = None"
proof (cases "hsearch sz e s []")
  case None
  then show ?thesis .
next
  case (Some q)
  then have "hamiltonian sz s e q"
    by (rule hsearch_hamiltonian)
  then have "q \<noteq> []"
    by (simp add: hamiltonian_def)
  then show ?thesis
    using solve_snake_hsearch[OF assms] Some by simp
qed

section \<open>The states at the observation points\<close>

lemma visited_iff_canon: "visited_iff_on_path sz (canon sz p)"
  by (simp add: visited_iff_on_path_def np_get_marks)

lemma visited_iff_ncanon: "visited_iff_on_path sz (ncanon sz p ds)"
  by (simp add: visited_iff_on_path_def np_get_marks)

lemma recursive_False_restores:
  assumes "recursive d pos e (canon sz p) = Some (Inr (False, st'))"
  shows "st' = canon sz p"
  using recursive_canon_result[OF assms]
  by (cases "hsearch sz e pos p") simp_all

lemma obs_dirns_canon:
  assumes obs: "\<And>pos' p' st. st \<in> set (obs pos' e (canon sz p')) \<Longrightarrow> \<exists>q. st = canon sz q"
  shows "st \<in> set (obs_dirns (recursive d) obs pos e ds (canon sz p)) \<Longrightarrow> \<exists>q. st = canon sz q"
proof (induction ds)
  case Nil
  then show ?case by simp
next
  case (Cons \<delta> ds)
  let ?nx = "(fst pos + fst \<delta>, snd pos + snd \<delta>)"
  have "st \<in> set (obs ?nx e (canon sz p)) \<or>
      (\<exists>st'. recursive d ?nx e (canon sz p) = Some (Inr (False, st')) \<and>
         st \<in> set (obs_dirns (recursive d) obs pos e ds st'))"
    using Cons.prems
    by (cases "recursive d ?nx e (canon sz p)")
      (auto simp: Let_def split: sum.splits bool.splits)
  then consider
      (here) "st \<in> set (obs ?nx e (canon sz p))"
    | (later) st' where "recursive d ?nx e (canon sz p) = Some (Inr (False, st'))"
        "st \<in> set (obs_dirns (recursive d) obs pos e ds st')"
    by blast
  then show ?case
  proof cases
    case here
    then show ?thesis by (rule obs)
  next
    case later
    then have "st' = canon sz p"
      using recursive_False_restores by blast
    then show ?thesis
      using later(2) Cons.IH by simp
  qed
qed

lemma observed_canon:
  "st \<in> set (observed d pos e (canon sz p)) \<Longrightarrow> \<exists>q. st = canon sz q"
proof (induction d arbitrary: pos p st)
  case 0
  then show ?case by simp
next
  case (Suc d)
  show ?case
  proof (cases "\<not> valid_pos pos sz \<or> pos \<in> set p")
    case True
    then have "observed (Suc d) pos e (canon sz p) = [canon sz p]"
      by (auto simp: np_get_marks)
    then show ?thesis
      using Suc.prems by auto
  next
    case False
    then have v: "valid_pos pos sz" and n: "pos \<notin> set p"
      by auto
    let ?p' = "p @ [pos]"
    have mk: "\<lparr>visited = marks sz ?p', path = ?p'\<rparr> = canon sz ?p'"
      by (simp add: canon_def)
    have unfold: "observed (Suc d) pos e (canon sz p) =
        canon sz p # canon sz ?p' #
        (if pos = e \<and> int (length ?p') = fst sz * snd sz then []
         else
           obs_dirns (recursive d) (observed d) pos e search_dirns (canon sz ?p') @
           (case recursive (Suc d) pos e (canon sz p) of
              Some (Inr (False, st3)) \<Rightarrow> [st3]
            | _ \<Rightarrow> []))"
      using v n
      by (simp add: np_get_marks np_set_marks_True mk Let_def del: length_append recursive.simps)
    have "st = canon sz p \<or> st = canon sz ?p' \<or>
        st \<in> set (obs_dirns (recursive d) (observed d) pos e search_dirns (canon sz ?p')) \<or>
        recursive (Suc d) pos e (canon sz p) = Some (Inr (False, st))"
      using Suc.prems unfolding unfold
      by (cases "recursive (Suc d) pos e (canon sz p)")
        (auto split: if_splits sum.splits bool.splits)
    then consider
        (entry) "st = canon sz p"
      | (marked) "st = canon sz ?p'"
      | (nested) "st \<in> set (obs_dirns (recursive d) (observed d) pos e search_dirns (canon sz ?p'))"
      | (exit) "recursive (Suc d) pos e (canon sz p) = Some (Inr (False, st))"
      by blast
    then show ?thesis
    proof cases
      case entry
      then show ?thesis by blast
    next
      case marked
      then show ?thesis by blast
    next
      case nested
      show ?thesis
        by (rule obs_dirns_canon[OF _ nested]) (rule Suc.IH)
    next
      case exit
      then show ?thesis
        using recursive_False_restores by blast
    qed
  qed
qed

lemma nr_step_canon_cases:
  assumes v: "valid_pos pos sz" and n: "pos \<notin> set p"
    and step: "nr_step e sz (ncanon sz (p @ [pos]) (ds @ [k])) = Inr st'"
  obtains (backtrack) "p \<noteq> []" "ds \<noteq> []" "st' = ncanon sz p (advance_dirn ds)"
    | (blocked) "st' = ncanon sz (p @ [pos]) (ds @ [Suc k])"
    | (push) nx where "valid_pos nx sz" "nx \<notin> set (p @ [pos])"
        "st' = ncanon sz ((p @ [pos]) @ [nx]) ((ds @ [k]) @ [0])"
  using step unfolding nr_step_canon[OF v n]
  by (auto simp: Let_def split: if_splits simp del: set_append append_assoc)

lemma nr_reach_canon:
  assumes "rtranclp (nr_next e sz) (ncanon sz [s] [0]) st" and "valid_pos s sz"
  shows "\<exists>p ds. st = ncanon sz p ds \<and> p \<noteq> [] \<and> ds \<noteq> [] \<and> distinct p \<and>
           (\<forall>c\<in>set p. valid_pos c sz)"
  using assms(1)
proof (induction rule: rtranclp_induct)
  case base
  show ?case
    by (rule exI[of _ "[s]"], rule exI[of _ "[0]"]) (simp add: assms(2))
next
  case (step st st')
  then obtain p ds where st: "st = ncanon sz p ds" and ne: "p \<noteq> []" "ds \<noteq> []"
    and d: "distinct p" and v: "\<forall>c\<in>set p. valid_pos c sz"
    by blast
  obtain p0 pos where p: "p = p0 @ [pos]"
    using ne(1) by (metis append_butlast_last_id)
  obtain ds0 k where ds: "ds = ds0 @ [k]"
    using ne(2) by (metis append_butlast_last_id)
  have vp: "valid_pos pos sz" and np: "pos \<notin> set p0"
    using d v p by auto
  have stp: "nr_step e sz (ncanon sz (p0 @ [pos]) (ds0 @ [k])) = Inr st'"
    using step.hyps(2) by (simp add: nr_next_def st p ds)
  from vp np stp show ?case
  proof (cases rule: nr_step_canon_cases)
    case backtrack
    show ?thesis
      by (rule exI[of _ p0], rule exI[of _ "advance_dirn ds0"])
        (use backtrack d v p in \<open>simp add: advance_dirn_def\<close>)
  next
    case blocked
    show ?thesis
      by (rule exI[of _ p], rule exI[of _ "ds0 @ [Suc k]"]) (use blocked d v p in simp)
  next
    case (push nx)
    show ?thesis
      by (rule exI[of _ "p @ [nx]"], rule exI[of _ "ds @ [0]"]) (use push d v p ds in auto)
  qed
qed

lemma nr_backtrack_unmarks:
  assumes "rtranclp (nr_next e sz) (ncanon sz [s] [0]) st" and "valid_pos s sz"
    and "nr_step e sz st = Inr st'" and "length (path st') < length (path st)"
  shows "path st' = butlast (path st) \<and> np_get (visited st') (last (path st)) = Inr False"
proof -
  from nr_reach_canon[OF assms(1,2)]
  obtain p ds where st: "st = ncanon sz p ds" and ne: "p \<noteq> []" "ds \<noteq> []"
    and d: "distinct p" and v: "\<forall>c\<in>set p. valid_pos c sz"
    by blast
  obtain p0 pos where p: "p = p0 @ [pos]"
    using ne(1) by (metis append_butlast_last_id)
  obtain ds0 k where ds: "ds = ds0 @ [k]"
    using ne(2) by (metis append_butlast_last_id)
  have vp: "valid_pos pos sz" and np: "pos \<notin> set p0"
    using d v p by auto
  have stp: "nr_step e sz (ncanon sz (p0 @ [pos]) (ds0 @ [k])) = Inr st'"
    using assms(3) by (simp add: st p ds)
  from vp np stp show ?thesis
  proof (cases rule: nr_step_canon_cases)
    case backtrack
    then show ?thesis
      using vp np by (simp add: st p np_get_marks)
  next
    case blocked
    then show ?thesis
      using assms(4) by (simp add: st p)
  next
    case (push nx)
    then show ?thesis
      using assms(4) by (simp add: st p)
  qed
qed

section \<open>The character array of the renderer\<close>

lemma np_full_wf:
  assumes "0 \<le> fst shp" and "0 \<le> snd shp"
  shows "\<exists>a. np_full shp x = Inr a \<and> wf_arr a shp \<and>
           (\<forall>i<nat (fst shp). \<forall>j<nat (snd shp). data a ! i ! j = x)"
  using assms by (simp add: np_full_def wf_arr_def)

lemma np_set_strided_wf:
  assumes "wf_arr a shp"
  shows "wf_arr (np_set_strided a si sj x) shp \<and>
         (\<forall>i<nat (fst shp). \<forall>j<nat (snd shp).
            data (np_set_strided a si sj x) ! i ! j =
              (if i mod si = 0 \<and> j mod sj = 0 then x else data a ! i ! j))"
  using assms by (auto simp: np_set_strided_def wf_arr_def)

lemma np_set_wf:
  assumes "wf_arr a shp" and "0 \<le> fst pos" and "fst pos < fst shp"
    and "0 \<le> snd pos" and "snd pos < snd shp"
  shows "\<exists>a'. np_set a pos x = Inr a' \<and> wf_arr a' shp \<and>
           (\<forall>i<nat (fst shp). \<forall>j<nat (snd shp).
              data a' ! i ! j =
                (if i = nat (fst pos) \<and> j = nat (snd pos) then x else data a ! i ! j))"
proof -
  let ?i = "nat (fst pos)" and ?j = "nat (snd pos)"
  let ?a' = "a\<lparr>data := (data a)[?i := (data a ! ?i)[?j := x]]\<rparr>"
  have sh: "shape a = shp" and len: "length (data a) = nat (fst shp)"
    and rows: "\<And>i. i < nat (fst shp) \<Longrightarrow> length (data a ! i) = nat (snd shp)"
    using assms(1) by (auto simp: wf_arr_def)
  have set: "np_set a pos x = Inr ?a'"
    using assms(2-5) by (simp add: np_set_def np_index_def sh)
  have i: "?i < nat (fst shp)" and j: "?j < nat (snd shp)"
    using assms(2-5) by auto
  have "\<forall>row\<in>set (data ?a'). length row = nat (snd shp)"
  proof
    fix row
    assume "row \<in> set (data ?a')"
    then have "row = (data a ! ?i)[?j := x] \<or> row \<in> set (data a)"
      using set_update_subset_insert[of "data a" ?i "(data a ! ?i)[?j := x]"] by auto
    then show "length row = nat (snd shp)"
      using assms(1) rows[OF i] by (auto simp: wf_arr_def)
  qed
  then have wf: "wf_arr ?a' shp"
    using assms(1) by (simp add: wf_arr_def)
  have cells: "\<forall>i<nat (fst shp). \<forall>j<nat (snd shp).
      data ?a' ! i ! j = (if i = ?i \<and> j = ?j then x else data a ! i ! j)"
  proof (intro allI impI)
    fix i' j'
    assume i': "i' < nat (fst shp)" and j': "j' < nat (snd shp)"
    show "data ?a' ! i' ! j' = (if i' = ?i \<and> j' = ?j then x else data a ! i' ! j')"
    proof (cases "i' = ?i")
      case True
      then have "data ?a' ! i' = (data a ! ?i)[?j := x]"
        using i len by simp
      then show ?thesis
        using True j' j rows[OF i] by (auto simp add: nth_list_update)
    next
      case False
      then show ?thesis
        by simp
    qed
  qed
  show ?thesis
    using set wf cells by blast
qed

lemma count_list_concat:
  "count_list (concat xss) x = sum_list (map (\<lambda>xs. count_list xs x) xss)"
  by (induction xss) simp_all

lemma count_list_one:
  assumes "j0 < length xs" and "\<And>j. j < length xs \<Longrightarrow> (xs ! j = x) = (j = j0)"
  shows "count_list xs x = 1"
proof -
  have "{j. j < length xs \<and> x = xs ! j} = {j0}"
    using assms by auto
  then show ?thesis
    by (simp add: count_list_eq_length_filter length_filter_conv_card)
qed

lemma count_list_none:
  assumes "\<And>j. j < length xs \<Longrightarrow> xs ! j \<noteq> x"
  shows "count_list xs x = 0"
  using assms by (simp add: count_list_0_iff in_set_conv_nth)

lemma only_at_count:
  assumes wf: "wf_arr a shp" and only: "only_at a shp x (i0, j0)"
    and i0: "i0 < nat (fst shp)" and j0: "j0 < nat (snd shp)"
  shows "count_list (concat (data a)) x = 1"
proof -
  have len: "length (data a) = nat (fst shp)"
    and rows: "\<And>i. i < nat (fst shp) \<Longrightarrow> length (data a ! i) = nat (snd shp)"
    using wf by (auto simp: wf_arr_def)
  have row: "count_list (data a ! i) x = (if i = i0 then 1 else 0)" if "i < nat (fst shp)" for i
  proof (cases "i = i0")
    case True
    have "count_list (data a ! i0) x = 1"
      by (rule count_list_one[of j0]) (use only i0 j0 rows in \<open>auto simp: only_at_def\<close>)
    then show ?thesis
      using True by simp
  next
    case False
    have "count_list (data a ! i) x = 0"
      by (rule count_list_none) (use only that False rows in \<open>auto simp: only_at_def\<close>)
    then show ?thesis
      using False by simp
  qed
  have "count_list (concat (data a)) x = (\<Sum>i<length (data a). count_list (data a ! i) x)"
    by (simp add: count_list_concat sum_list_sum_nth atLeast0LessThan)
  also have "\<dots> = (\<Sum>i<nat (fst shp). if i = i0 then 1 else 0)"
    using row by (simp add: len)
  also have "\<dots> = 1"
    using i0 by simp
  finally show ?thesis .
qed

lemma np_set_off_grid:
  assumes wf: "wf_arr a shp" and r: "0 \<le> fst pos" "fst pos < fst shp"
    "0 \<le> snd pos" "snd pos < snd shp"
    and off: "odd (fst pos) \<or> \<not> 4 dvd snd pos"
  shows "\<exists>a'. np_set a pos y = Inr a' \<and> wf_arr a' shp \<and>
           (\<forall>x g. y \<noteq> x \<longrightarrow> marked_at a shp x g \<longrightarrow> marked_at a' shp x g)"
proof -
  from np_set_wf[OF wf r, of y] obtain a' where a': "np_set a pos y = Inr a'" "wf_arr a' shp"
    and cells: "\<And>i j. i < nat (fst shp) \<Longrightarrow> j < nat (snd shp) \<Longrightarrow>
      data a' ! i ! j = (if i = nat (fst pos) \<and> j = nat (snd pos) then y else data a ! i ! j)"
    by blast
  have "marked_at a' shp x g" if ne: "y \<noteq> x" and m: "marked_at a shp x g" for x g
  proof -
    have g: "0 \<le> fst g" "0 \<le> snd g"
      and only: "\<And>i j. i < nat (fst shp) \<Longrightarrow> j < nat (snd shp) \<Longrightarrow>
        (data a ! i ! j = x) = ((i, j) = (nat (2 * fst g), nat (4 * snd g)))"
      using m by (auto simp: marked_at_def only_at_def)
    have differ: "(nat (fst pos), nat (snd pos)) \<noteq> (nat (2 * fst g), nat (4 * snd g))"
    proof
      assume "(nat (fst pos), nat (snd pos)) = (nat (2 * fst g), nat (4 * snd g))"
      then have "fst pos = 2 * fst g" "snd pos = 4 * snd g"
        using r g by auto
      then show False
        using off by auto
    qed
    have "(data a' ! i ! j = x) = ((i, j) = (nat (2 * fst g), nat (4 * snd g)))"
      if "i < nat (fst shp)" "j < nat (snd shp)" for i j
      using cells[OF that] only[OF that] ne differ by auto
    then show ?thesis
      using g by (simp add: marked_at_def only_at_def)
  qed
  then show ?thesis
    using a' by blast
qed

lemma draw_edges_ok:
  assumes "\<forall>c\<in>set (pt1 # rest). valid_pos c sz"
    and "wf_arr a (2 * fst sz - 1, 4 * snd sz - 3)"
  shows "\<exists>a'. draw_edges (pt1 # rest) a = Inr a' \<and>
           wf_arr a' (2 * fst sz - 1, 4 * snd sz - 3) \<and>
           (\<forall>x g. x \<notin> {chr_down, chr_up, chr_right, chr_left} \<longrightarrow>
              marked_at a (2 * fst sz - 1, 4 * snd sz - 3) x g \<longrightarrow>
              marked_at a' (2 * fst sz - 1, 4 * snd sz - 3) x g)"
  using assms
proof (induction rest arbitrary: pt1 a)
  case Nil
  then show ?case by simp
next
  case (Cons pt2 rest)
  let ?shp = "(2 * fst sz - 1, 4 * snd sz - 3)"
  let ?arrows = "{chr_down, chr_up, chr_right, chr_left}"
  define \<delta> where "\<delta> = (fst pt2 - fst pt1, snd pt2 - snd pt1)"
  define pos where "pos = (fst pt1 * 2 + fst \<delta>, snd pt1 * 4 + snd \<delta> * 2)"
  define drawn where "drawn =
    (if \<delta> = (1, 0) then np_set a pos chr_down
     else if \<delta> = (-1, 0) then np_set a pos chr_up
     else if \<delta> = (0, 1) then np_set a pos chr_right
     else if \<delta> = (0, -1) then np_set a pos chr_left
     else Inr a)"
  have v1: "valid_pos pt1 sz" and v2: "valid_pos pt2 sz"
    and vs: "\<forall>c\<in>set (pt2 # rest). valid_pos c sz"
    using Cons.prems(1) by auto
  have wf: "wf_arr a ?shp"
    by (rule Cons.prems(2))
  have arrow: "\<exists>a1. np_set a pos y = Inr a1 \<and> wf_arr a1 ?shp \<and>
      (\<forall>x g. x \<notin> ?arrows \<longrightarrow> marked_at a ?shp x g \<longrightarrow> marked_at a1 ?shp x g)"
    if d: "\<delta> \<in> {(1, 0), (-1, 0), (0, 1), (0, -1)}" and y: "y \<in> ?arrows" for y
  proof -
    have rng: "0 \<le> fst pos" "fst pos < fst ?shp" "0 \<le> snd pos" "snd pos < snd ?shp"
      using v1 v2 d by (auto simp: valid_pos_def pos_def \<delta>_def)
    have off: "odd (fst pos) \<or> \<not> 4 dvd snd pos"
      using d unfolding pos_def by (elim insertE emptyE) (simp_all, presburger+)
    from np_set_off_grid[OF wf rng off, of y]
    obtain a1 where s: "np_set a pos y = Inr a1" "wf_arr a1 ?shp"
      and k: "\<And>x g. y \<noteq> x \<Longrightarrow> marked_at a ?shp x g \<Longrightarrow> marked_at a1 ?shp x g"
      by blast
    have "marked_at a1 ?shp x g" if "x \<notin> ?arrows" "marked_at a ?shp x g" for x g
    proof (rule k)
      show "y \<noteq> x"
        using y that(1) by auto
      show "marked_at a ?shp x g"
        by (rule that(2))
    qed
    then show ?thesis
      using s by (intro exI[of _ a1]) simp
  qed
  have "\<exists>a1. drawn = Inr a1 \<and> wf_arr a1 ?shp \<and>
      (\<forall>x g. x \<notin> ?arrows \<longrightarrow> marked_at a ?shp x g \<longrightarrow> marked_at a1 ?shp x g)"
  proof (cases "\<delta> \<in> {(1, 0), (-1, 0), (0, 1), (0, -1)}")
    case True
    then consider "drawn = np_set a pos chr_down" | "drawn = np_set a pos chr_up"
      | "drawn = np_set a pos chr_right" | "drawn = np_set a pos chr_left"
      by (auto simp: drawn_def)
    then show ?thesis
    proof cases
      case 1
      then show ?thesis using arrow[OF True, of chr_down] by simp
    next
      case 2
      then show ?thesis using arrow[OF True, of chr_up] by simp
    next
      case 3
      then show ?thesis using arrow[OF True, of chr_right] by simp
    next
      case 4
      then show ?thesis using arrow[OF True, of chr_left] by simp
    qed
  next
    case False
    then have "drawn = Inr a"
      by (auto simp: drawn_def)
    then show ?thesis
      using wf by auto
  qed
  then obtain a1 where a1: "drawn = Inr a1" "wf_arr a1 ?shp"
    and keep1: "\<And>x g. x \<notin> ?arrows \<Longrightarrow> marked_at a ?shp x g \<Longrightarrow> marked_at a1 ?shp x g"
    by blast
  from Cons.IH[OF vs a1(2)] obtain a' where a': "draw_edges (pt2 # rest) a1 = Inr a'"
    "wf_arr a' ?shp"
    and keep2: "\<And>x g. x \<notin> ?arrows \<Longrightarrow> marked_at a1 ?shp x g \<Longrightarrow> marked_at a' ?shp x g"
    by blast
  have "draw_edges (pt1 # pt2 # rest) a =
      (case drawn of Inl e \<Rightarrow> Inl e | Inr chrs' \<Rightarrow> draw_edges (pt2 # rest) chrs')"
    by (simp only: draw_edges.simps(1) Let_def drawn_def pos_def \<delta>_def)
  then have "draw_edges (pt1 # pt2 # rest) a = draw_edges (pt2 # rest) a1"
    by (simp only: a1(1) sum.case)
  then show ?case
    using a' keep1 keep2 by auto
qed

lemma print_path_ok:
  assumes ne: "pts \<noteq> []" and v: "\<forall>c\<in>set pts. valid_pos c sz"
  shows "\<exists>a. print_path pts sz = Inr ([] # data a @ [[]]) \<and>
           wf_arr a (2 * fst sz - 1, 4 * snd sz - 3) \<and>
           marked_at a (2 * fst sz - 1, 4 * snd sz - 3) chr_E (last pts) \<and>
           (hd pts \<noteq> last pts \<longrightarrow>
              marked_at a (2 * fst sz - 1, 4 * snd sz - 3) chr_S (hd pts))"
proof -
  let ?shp = "(2 * fst sz - 1, 4 * snd sz - 3)"
  let ?R = "nat (fst ?shp)" and ?C = "nat (snd ?shp)"
  let ?sp = "(fst (hd pts) * 2, snd (hd pts) * 4)"
  let ?ep = "(fst (last pts) * 2, snd (last pts) * 4)"
  have vh: "valid_pos (hd pts) sz" and vl: "valid_pos (last pts) sz"
    using ne v by simp_all
  have shp: "0 \<le> fst ?shp" "0 \<le> snd ?shp"
    using vh by (auto simp: valid_pos_def)
  have sp: "0 \<le> fst ?sp" "fst ?sp < fst ?shp" "0 \<le> snd ?sp" "snd ?sp < snd ?shp"
    using vh by (auto simp: valid_pos_def)
  have ep: "0 \<le> fst ?ep" "fst ?ep < fst ?shp" "0 \<le> snd ?ep" "snd ?ep < snd ?shp"
    using vl by (auto simp: valid_pos_def)
  from np_full_wf[OF shp, of chr_space]
  obtain a0 where a0: "np_full ?shp chr_space = Inr a0" "wf_arr a0 ?shp"
    and c0: "\<And>i j. i < ?R \<Longrightarrow> j < ?C \<Longrightarrow> data a0 ! i ! j = chr_space"
    by blast
  define a1 where "a1 = np_set_strided a0 2 4 chr_circle"
  have wf1: "wf_arr a1 ?shp"
    and c1: "\<And>i j. i < ?R \<Longrightarrow> j < ?C \<Longrightarrow>
      data a1 ! i ! j = (if i mod 2 = 0 \<and> j mod 4 = 0 then chr_circle else data a0 ! i ! j)"
    using np_set_strided_wf[OF a0(2), of 2 4 chr_circle] by (simp_all add: a1_def)
  have n1: "data a1 ! i ! j \<noteq> chr_S \<and> data a1 ! i ! j \<noteq> chr_E" if "i < ?R" "j < ?C" for i j
    using c1[OF that] c0[OF that] by simp
  from np_set_wf[OF wf1 sp, of chr_S]
  obtain a2 where a2: "np_set a1 ?sp chr_S = Inr a2" "wf_arr a2 ?shp"
    and c2: "\<And>i j. i < ?R \<Longrightarrow> j < ?C \<Longrightarrow>
      data a2 ! i ! j = (if i = nat (fst ?sp) \<and> j = nat (snd ?sp) then chr_S else data a1 ! i ! j)"
    by blast
  from np_set_wf[OF a2(2) ep, of chr_E]
  obtain a3 where a3: "np_set a2 ?ep chr_E = Inr a3" "wf_arr a3 ?shp"
    and c3: "\<And>i j. i < ?R \<Longrightarrow> j < ?C \<Longrightarrow>
      data a3 ! i ! j = (if i = nat (fst ?ep) \<and> j = nat (snd ?ep) then chr_E else data a2 ! i ! j)"
    by blast
  have nonneg: "0 \<le> fst (hd pts)" "0 \<le> snd (hd pts)" "0 \<le> fst (last pts)"
    "0 \<le> snd (last pts)"
    using vh vl by (auto simp: valid_pos_def)
  have mE: "marked_at a3 ?shp chr_E (last pts)"
    unfolding marked_at_def only_at_def
  proof (intro conjI allI impI)
    fix i j
    assume ij: "i < ?R" "j < ?C"
    show "(data a3 ! i ! j = chr_E) = ((i, j) = (nat (2 * fst (last pts)), nat (4 * snd (last pts))))"
      using c3[OF ij] c2[OF ij] n1[OF ij] by (auto simp: mult.commute)
  qed (use nonneg in simp_all)
  have mS: "marked_at a3 ?shp chr_S (hd pts)" if d: "hd pts \<noteq> last pts"
    unfolding marked_at_def only_at_def
  proof (intro conjI allI impI)
    have differ: "(nat (fst ?sp), nat (snd ?sp)) \<noteq> (nat (fst ?ep), nat (snd ?ep))"
    proof
      assume "(nat (fst ?sp), nat (snd ?sp)) = (nat (fst ?ep), nat (snd ?ep))"
      then have "fst (hd pts) = fst (last pts)" "snd (hd pts) = snd (last pts)"
        using nonneg by auto
      then show False
        using d by (simp add: prod_eq_iff)
    qed
    fix i j
    assume ij: "i < ?R" "j < ?C"
    show "(data a3 ! i ! j = chr_S) = ((i, j) = (nat (2 * fst (hd pts)), nat (4 * snd (hd pts))))"
      using c3[OF ij] c2[OF ij] n1[OF ij] differ by (auto simp: mult.commute)
  qed (use nonneg in simp_all)
  obtain pt1 rest where pts: "pts = pt1 # rest"
    using ne by (cases pts) auto
  from draw_edges_ok[OF v[unfolded pts] a3(2)]
  obtain a4 where a4: "draw_edges pts a3 = Inr a4" "wf_arr a4 ?shp"
    and keep: "\<And>x g. x \<notin> {chr_down, chr_up, chr_right, chr_left} \<Longrightarrow>
      marked_at a3 ?shp x g \<Longrightarrow> marked_at a4 ?shp x g"
    unfolding pts by blast
  have out: "print_path pts sz = Inr ([] # data a4 @ [[]])"
    using ne by (simp add: print_path_def Let_def a0(1) a1_def[symmetric] a2(1) a3(1) a4(1))
  have "marked_at a4 ?shp chr_E (last pts)"
    by (rule keep[OF _ mE]) simp
  moreover have "marked_at a4 ?shp chr_S (hd pts)" if "hd pts \<noteq> last pts"
    by (rule keep[OF _ mS[OF that]]) simp
  ultimately show ?thesis
    using out a4(2) by blast
qed

lemma marked_at_cell:
  assumes "wf_arr a (2 * fst sz - 1, 4 * snd sz - 3)"
    and "marked_at a (2 * fst sz - 1, 4 * snd sz - 3) x g" and "valid_pos g sz"
  shows "count_list (concat (data a)) x = 1 \<and> data a ! nat (2 * fst g) ! nat (4 * snd g) = x"
proof -
  let ?shp = "(2 * fst sz - 1, 4 * snd sz - 3)"
  have only: "only_at a ?shp x (nat (2 * fst g), nat (4 * snd g))"
    using assms(2) by (simp add: marked_at_def)
  have i: "nat (2 * fst g) < nat (fst ?shp)" and j: "nat (4 * snd g) < nat (snd ?shp)"
    using assms(3) by (auto simp: valid_pos_def)
  have "count_list (concat (data a)) x = 1"
    using assms(1) only i j by (rule only_at_count)
  moreover have "data a ! nat (2 * fst g) ! nat (4 * snd g) = x"
    using only i j by (simp add: only_at_def)
  ultimately show ?thesis by simp
qed

section \<open>The claims\<close>

text \<open>
  C1. Whenever \<open>solve_snake\<close> returns a non-empty path, with either method, that path has
  exactly \<open>rows * cols\<close> cells, starts at the start position, ends at the end position,
  contains every cell of the grid exactly once, and each of its cells differs from the one
  before it by one of the four search directions. (A call that returns a list at all has
  passed the three checks, so its positions are in bounds and differ, and both dimensions are
  positive.)
\<close>

theorem solve_snake_found_path:
  assumes "solve_snake depth start_pos end_pos sz method = Some (Inr p)" and "p \<noteq> []"
  shows "int (length p) = fst sz * snd sz \<and> hd p = start_pos \<and> last p = end_pos \<and>
         distinct p \<and> set p = {c. valid_pos c sz} \<and> unit_steps p"
proof -
  have "p = (case hsearch sz end_pos start_pos [] of None \<Rightarrow> [] | Some q \<Rightarrow> q)"
    using assms(1) by (rule solve_snake_hsearch)
  then have "hsearch sz end_pos start_pos [] = Some p"
    using assms(2) by (cases "hsearch sz end_pos start_pos []") simp_all
  then have "hamiltonian sz start_pos end_pos p"
    by (rule hsearch_hamiltonian)
  then show ?thesis
    by (simp add: hamiltonian_def)
qed

theorem solve_snake_found_path_witness:
  "solve_snake 5 (0, 0) (0, 3) (1, 4) ''recursive'' = Some (Inr [(0, 0), (0, 1), (0, 2), (0, 3)]) \<and>
   [(0, 0), (0, 1), (0, 2), (0, 3)] \<noteq> ([] :: GridPt list) \<and>
   int (length [(0, 0), (0, 1), (0, 2), (0, 3 :: int) :: GridPt]) = fst (1, 4 :: int) * snd (1 :: int, 4) \<and>
   distinct [(0, 0), (0, 1), (0, 2), (0, 3) :: GridPt] \<and>
   set [(0, 0), (0, 1), (0, 2), (0, 3)] = {c. valid_pos c (1, 4)} \<and>
   unit_steps [(0, 0), (0, 1), (0, 2), (0, 3)]"
proof -
  have run: "solve_snake 5 (0, 0) (0, 3) (1, 4) ''recursive'' =
      Some (Inr [(0, 0), (0, 1), (0, 2), (0, 3)])"
    by code_simp
  have ne: "[(0, 0), (0, 1), (0, 2), (0, 3)] \<noteq> ([] :: GridPt list)"
    by simp
  from solve_snake_found_path[OF run ne] run show ?thesis
    by simp
qed

text \<open>
  C2. For a valid request (both positions in bounds and different, hence positive dimensions)
  the two methods return the same result. The non-recursive method always returns a list \<open>p\<close>
  (the path, or the empty list for no solution). The recursive method returns that same list as
  soon as the recursion depth at its disposal exceeds \<open>rows * cols\<close>, and with any smaller
  depth it either does not return or returns that same list.
\<close>

theorem strategies_agree:
  assumes "valid_pos start_pos sz" and "valid_pos end_pos sz" and "start_pos \<noteq> end_pos"
  shows "\<exists>p. solve_snake depth start_pos end_pos sz ''non-recursive'' = Some (Inr p) \<and>
             solve_snake depth start_pos end_pos sz ''recursive'' \<in> {None, Some (Inr p)} \<and>
             (fst sz * snd sz < int depth \<longrightarrow>
                solve_snake depth start_pos end_pos sz ''recursive'' = Some (Inr p))"
proof -
  let ?p = "case hsearch sz end_pos start_pos [] of None \<Rightarrow> [] | Some q \<Rightarrow> q"
  have nr: "solve_snake depth start_pos end_pos sz ''non-recursive'' = Some (Inr ?p)"
    using assms by (rule solve_non_recursive)
  have any: "solve_snake depth start_pos end_pos sz ''recursive'' \<in> {None, Some (Inr ?p)}"
  proof (cases "solve_snake depth start_pos end_pos sz ''recursive''")
    case None
    then show ?thesis by simp
  next
    case (Some r)
    then have "r = Inr ?p"
      using assms by (intro solve_recursive_any)
    then show ?thesis
      using Some by simp
  qed
  have enough: "solve_snake depth start_pos end_pos sz ''recursive'' = Some (Inr ?p)"
    if "fst sz * snd sz < int depth"
    using assms that by (rule solve_recursive)
  show ?thesis
    using nr any enough by blast
qed

theorem strategies_agree_witness:
  "valid_pos (0, 0) (2, 2) \<and> valid_pos (0, 1) (2, 2) \<and> (0, 0) \<noteq> (0, 1 :: int) \<and>
   fst (2, 2 :: int) * snd (2 :: int, 2) < int 5 \<and>
   solve_snake 5 (0, 0) (0, 1) (2, 2) ''recursive'' =
     solve_snake 5 (0, 0) (0, 1) (2, 2) ''non-recursive'' \<and>
   solve_snake 5 (0, 0) (0, 1) (2, 2) ''recursive'' = Some (Inr [(0, 0), (1, 0), (1, 1), (0, 1)])"
proof -
  have v: "valid_pos (0, 0) (2, 2)" "valid_pos (0, 1) (2, 2)" "(0 :: int, 0 :: int) \<noteq> (0, 1)"
    by (simp_all add: valid_pos_def)
  have run: "solve_snake 5 (0, 0) (0, 1) (2, 2) ''non-recursive'' =
      Some (Inr [(0, 0), (1, 0), (1, 1), (0, 1)])"
    by code_simp
  from strategies_agree[OF v, of 5] run v show ?thesis
    by simp
qed

text \<open>
  C3. Whenever \<open>solve_snake\<close> returns the empty list, with either method, the grid has no
  Hamiltonian path from the start position to the end position: no sequence of
  \<open>rows * cols\<close> cells that starts at the start position, ends at the end position, visits
  every cell of the grid exactly once and moves by one search direction at a time.
\<close>

theorem no_solution_is_exhaustive:
  assumes "solve_snake depth start_pos end_pos sz method = Some (Inr [])"
  shows "\<not> (\<exists>p. hamiltonian sz start_pos end_pos p)"
proof -
  have eq: "[] = (case hsearch sz end_pos start_pos [] of None \<Rightarrow> [] | Some q \<Rightarrow> q)"
    using assms by (rule solve_snake_hsearch)
  have "hsearch sz end_pos start_pos [] = None"
  proof (cases "hsearch sz end_pos start_pos []")
    case None
    then show ?thesis .
  next
    case (Some q)
    then have "hamiltonian sz start_pos end_pos q"
      by (rule hsearch_hamiltonian)
    then have "q \<noteq> []"
      by (simp add: hamiltonian_def)
    then show ?thesis
      using eq Some by simp
  qed
  then show ?thesis
    using hsearch_no_hamiltonian by blast
qed

theorem no_solution_is_exhaustive_witness:
  "solve_snake 5 (0, 0) (1, 1) (2, 2) ''non-recursive'' = Some (Inr []) \<and>
   \<not> (\<exists>p. hamiltonian (2, 2) (0, 0) (1, 1) p)"
proof -
  have run: "solve_snake 5 (0, 0) (1, 1) (2, 2) ''non-recursive'' = Some (Inr [])"
    by code_simp
  from no_solution_is_exhaustive[OF run] run show ?thesis
    by simp
qed

text \<open>
  C4. \<open>solve_snake\<close> raises for each violated precondition, and it does so before any
  search: the result below is the same for every recursion depth, depth 0 included, where no
  call of \<^verbatim>\<open>_recursive\<close> could be made. A start position out of bounds, an end position
  out of bounds, equal positions and an unknown method name each raise a \<open>ValueError\<close> with
  the message of its own \<^verbatim>\<open>raise\<close> statement, in this order of precedence. A valid request
  on a grid without a Hamiltonian path from start to end does not raise: it returns the empty
  list (the recursive method once its depth exceeds \<open>rows * cols\<close>).
\<close>

theorem precondition_errors:
  "(\<not> valid_pos start_pos sz \<longrightarrow>
      solve_snake depth start_pos end_pos sz method =
        Some (Inl (ValueError (''Invalid start position: '' @ str_pt start_pos)))) \<and>
   (valid_pos start_pos sz \<and> \<not> valid_pos end_pos sz \<longrightarrow>
      solve_snake depth start_pos end_pos sz method =
        Some (Inl (ValueError (''Invalid end position: '' @ str_pt end_pos)))) \<and>
   (valid_pos start_pos sz \<and> valid_pos end_pos sz \<and> start_pos = end_pos \<longrightarrow>
      solve_snake depth start_pos end_pos sz method =
        Some (Inl (ValueError ''Start and end positions must be different.''))) \<and>
   (valid_pos start_pos sz \<and> valid_pos end_pos sz \<and> start_pos \<noteq> end_pos \<and>
    method \<noteq> ''recursive'' \<and> method \<noteq> ''non-recursive'' \<longrightarrow>
      solve_snake depth start_pos end_pos sz method =
        Some (Inl (ValueError (''Unknown method: '' @ method)))) \<and>
   (valid_pos start_pos sz \<and> valid_pos end_pos sz \<and> start_pos \<noteq> end_pos \<and>
    (method = ''recursive'' \<and> fst sz * snd sz < int depth \<or> method = ''non-recursive'') \<and>
    \<not> (\<exists>p. hamiltonian sz start_pos end_pos p) \<longrightarrow>
      solve_snake depth start_pos end_pos sz method = Some (Inr []))"
proof -
  have "solve_snake depth start_pos end_pos sz method = Some (Inr [])"
    if v: "valid_pos start_pos sz" "valid_pos end_pos sz" "start_pos \<noteq> end_pos"
      and m: "method = ''recursive'' \<and> fst sz * snd sz < int depth \<or> method = ''non-recursive''"
      and no: "\<not> (\<exists>p. hamiltonian sz start_pos end_pos p)"
  proof -
    have "hsearch sz end_pos start_pos [] = None"
    proof (cases "hsearch sz end_pos start_pos []")
      case None
      then show ?thesis .
    next
      case (Some q)
      then have "hamiltonian sz start_pos end_pos q"
        by (rule hsearch_hamiltonian)
      then show ?thesis
        using no by blast
    qed
    then show ?thesis
      using m solve_recursive[OF v, of depth] solve_non_recursive[OF v, of depth] by auto
  qed
  then show ?thesis
    by (auto simp: solve_snake_def)
qed

theorem precondition_errors_witness:
  "\<not> valid_pos (5, 0) (5, 5) \<and>
   solve_snake 0 (5, 0) (0, 3) (5, 5) ''recursive'' =
     Some (Inl (ValueError ''Invalid start position: (5, 0)'')) \<and>
   valid_pos (0, 0) (5, 5) \<and> \<not> valid_pos (0, -1) (5, 5) \<and>
   solve_snake 0 (0, 0) (0, -1) (5, 5) ''recursive'' =
     Some (Inl (ValueError ''Invalid end position: (0, -1)'')) \<and>
   valid_pos (0, 0) (1, 1) \<and>
   solve_snake 0 (0, 0) (0, 0) (1, 1) ''non-recursive'' =
     Some (Inl (ValueError ''Start and end positions must be different.'')) \<and>
   valid_pos (0, 3) (5, 5) \<and> (0 :: int, 0 :: int) \<noteq> (0, 3) \<and>
   solve_snake 0 (0, 0) (0, 3) (5, 5) ''iterative'' =
     Some (Inl (ValueError ''Unknown method: iterative'')) \<and>
   valid_pos (0, 0) (2, 2) \<and> valid_pos (1, 1) (2, 2) \<and> (0 :: int, 0 :: int) \<noteq> (1, 1) \<and>
   fst (2, 2 :: int) * snd (2 :: int, 2) < int 5 \<and>
   \<not> (\<exists>p. hamiltonian (2, 2) (0, 0) (1, 1) p) \<and>
   solve_snake 5 (0, 0) (1, 1) (2, 2) ''recursive'' = Some (Inr [])"
proof -
  have v: "\<not> valid_pos (5, 0) (5, 5)" "valid_pos (0, 0) (5, 5)" "\<not> valid_pos (0, -1) (5, 5)"
    "valid_pos (0, 0) (1, 1)" "valid_pos (0, 3) (5, 5)" "valid_pos (0, 0) (2, 2)"
    "valid_pos (1, 1) (2, 2)"
    by (simp_all add: valid_pos_def)
  have s: "str_pt (5, 0) = ''(5, 0)''" "str_pt (0, -1) = ''(0, -1)''"
    by code_simp+
  have run: "solve_snake 5 (0, 0) (1, 1) (2, 2) ''non-recursive'' = Some (Inr [])"
    by code_simp
  have no: "\<not> (\<exists>p. hamiltonian (2, 2) (0, 0) (1, 1) p)"
    using hsearch_no_hamiltonian[OF solve_snake_empty[OF run]] by blast
  show ?thesis
    using v s no
      precondition_errors[of "(5, 0)" "(5, 5)" 0 "(0, 3)" "''recursive''"]
      precondition_errors[of "(0, 0)" "(5, 5)" 0 "(0, -1)" "''recursive''"]
      precondition_errors[of "(0, 0)" "(1, 1)" 0 "(0, 0)" "''non-recursive''"]
      precondition_errors[of "(0, 0)" "(5, 5)" 0 "(0, 3)" "''iterative''"]
      precondition_errors[of "(0, 0)" "(2, 2)" 5 "(1, 1)" "''recursive''"]
    by simp
qed

text \<open>
  C5. During a search the visited array marks exactly the cells on the path, at every
  observation point. For the recursive solver these are the entry of every call of
  \<^verbatim>\<open>_recursive\<close>, nested calls included, the point after the call has marked and appended
  its position, and its exit after backtracking (\<open>observed\<close>); at each of them, moreover, a
  call of \<^verbatim>\<open>_recursive\<close> that fails hands back exactly the state it was entered with.
  For the non-recursive solver they are the states between two iterations of the loop; an
  iteration that shortens the path removes its last cell and leaves that cell unmarked, and
  two states of the loop with the same path have the same visited array, so backtracking
  restores the array the parent position had seen. (Marking and appending, or unmarking and
  popping, are two statements of the source; the invariant is about the points before and
  after such a pair, not the point between the two.)
\<close>

theorem visited_tracks_path:
  assumes "valid_pos start_pos sz" and "rec_init sz = Inr st0"
    and "nr_init start_pos sz = Inr nst0"
  shows "(\<forall>st\<in>set (observed depth start_pos end_pos st0).
            visited_iff_on_path sz st \<and>
            (\<forall>d pos st'. recursive d pos end_pos st = Some (Inr (False, st')) \<longrightarrow> st' = st)) \<and>
         (\<forall>st. rtranclp (nr_next end_pos sz) nst0 st \<longrightarrow>
            visited_iff_on_path sz st \<and>
            (\<forall>st'. nr_step end_pos sz st = Inr st' \<and> length (path st') < length (path st) \<longrightarrow>
               path st' = butlast (path st) \<and>
               np_get (visited st') (last (path st)) = Inr False) \<and>
            (\<forall>st'. rtranclp (nr_next end_pos sz) nst0 st' \<and> path st' = path st \<longrightarrow>
               visited st' = visited st))"
proof (intro conjI ballI allI impI)
  have st0: "st0 = canon sz []"
    using assms(1,2) rec_init_canon by fastforce
  have nst0: "nst0 = ncanon sz [start_pos] [0]"
    using assms(1,3) nr_init_canon by fastforce
  {
    fix st
    assume "st \<in> set (observed depth start_pos end_pos st0)"
    then obtain q where q: "st = canon sz q"
      unfolding st0 using observed_canon by blast
    show "visited_iff_on_path sz st"
      unfolding q by (rule visited_iff_canon)
    fix d pos st'
    assume "recursive d pos end_pos st = Some (Inr (False, st'))"
    then show "st' = st"
      unfolding q by (rule recursive_False_restores)
  }
  {
    fix st
    assume r: "rtranclp (nr_next end_pos sz) nst0 st"
    then obtain p ds where p: "st = ncanon sz p ds"
      unfolding nst0 using nr_reach_canon[OF _ assms(1)] by blast
    show "visited_iff_on_path sz st"
      unfolding p by (rule visited_iff_ncanon)
    {
      fix st'
      assume s: "nr_step end_pos sz st = Inr st' \<and> length (path st') < length (path st)"
      have b: "path st' = butlast (path st) \<and>
          np_get (visited st') (last (path st)) = Inr False"
        using s nr_backtrack_unmarks[OF r[unfolded nst0] assms(1), of st'] by blast
      show "path st' = butlast (path st)"
        using b by simp
      show "np_get (visited st') (last (path st)) = Inr False"
        using b by simp
    }
    fix st'
    assume "rtranclp (nr_next end_pos sz) nst0 st' \<and> path st' = path st"
    then obtain p' ds' where "st' = ncanon sz p' ds'" "path st' = path st"
      unfolding nst0 using nr_reach_canon[OF _ assms(1)] by blast
    then show "visited st' = visited st"
      using p by simp
  }
qed

theorem visited_tracks_path_witness:
  "valid_pos (0, 0) (2, 2) \<and>
   rec_init (2, 2) =
     Inr \<lparr>visited = \<lparr>shape = (2, 2), data = [[False, False], [False, False]]\<rparr>, path = []\<rparr> \<and>
   nr_init (0, 0) (2, 2) =
     Inr \<lparr>visited = \<lparr>shape = (2, 2), data = [[True, False], [False, False]]\<rparr>,
          path = [(0, 0)], path_dirn = [0]\<rparr> \<and>
   \<lparr>visited = \<lparr>shape = (2, 2), data = [[True, False], [True, False]]\<rparr>,
    path = [(0, 0), (1, 0)]\<rparr>
     \<in> set (observed 5 (0, 0) (1, 1)
              \<lparr>visited = \<lparr>shape = (2, 2), data = [[False, False], [False, False]]\<rparr>,
               path = []\<rparr>) \<and>
   visited_iff_on_path (2, 2)
     \<lparr>visited = \<lparr>shape = (2, 2), data = [[True, False], [True, False]]\<rparr>,
      path = [(0, 0), (1, 0)]\<rparr> \<and>
   rtranclp (nr_next (1, 1) (2, 2))
     \<lparr>visited = \<lparr>shape = (2, 2), data = [[True, False], [False, False]]\<rparr>,
      path = [(0, 0)], path_dirn = [0]\<rparr>
     \<lparr>visited = \<lparr>shape = (2, 2), data = [[True, False], [True, False]]\<rparr>,
      path = [(0, 0), (1, 0)], path_dirn = [0, 0]\<rparr> \<and>
   visited_iff_on_path (2, 2)
     \<lparr>visited = \<lparr>shape = (2, 2), data = [[True, False], [True, False]]\<rparr>,
      path = [(0, 0), (1, 0)], path_dirn = [0, 0]\<rparr>"
proof -
  let ?S0 = "\<lparr>visited = \<lparr>shape = (2, 2), data = [[False, False], [False, False]]\<rparr>,
              path = []\<rparr>"
  let ?S1 = "\<lparr>visited = \<lparr>shape = (2, 2), data = [[True, False], [True, False]]\<rparr>,
              path = [(0, 0), (1, 0)]\<rparr>"
  let ?N0 = "\<lparr>visited = \<lparr>shape = (2, 2), data = [[True, False], [False, False]]\<rparr>,
              path = [(0, 0)], path_dirn = [0]\<rparr>"
  let ?N1 = "\<lparr>visited = \<lparr>shape = (2, 2), data = [[True, False], [True, False]]\<rparr>,
              path = [(0, 0), (1, 0)], path_dirn = [0, 0]\<rparr>"
  have v: "valid_pos (0, 0) (2, 2)"
    by (simp add: valid_pos_def)
  have r: "rec_init (2, 2) = Inr ?S0"
    by code_simp
  have n: "nr_init (0, 0) (2, 2) = Inr ?N0"
    by code_simp
  have o: "?S1 \<in> set (observed 5 (0, 0) (1, 1) ?S0)"
    by code_simp
  have "nr_step (1, 1) (2, 2) ?N0 = Inr ?N1"
    by code_simp
  then have "nr_next (1, 1) (2, 2) ?N0 ?N1"
    by (simp only: nr_next_def)
  then have s: "rtranclp (nr_next (1, 1) (2, 2)) ?N0 ?N1"
    by (rule r_into_rtranclp)
  from visited_tracks_path[OF v r n, of 5 "(1, 1)"] v r n o s show ?thesis
    by blast
qed

text \<open>
  C6 (as the code has it). A call of \<open>solve_snake\<close> terminates. The non-recursive method
  returns for every input, its \<^verbatim>\<open>while\<close> loop always reaches a \<^verbatim>\<open>return\<close>. The
  recursive method returns as soon as the recursion depth at its disposal exceeds
  \<open>rows * cols\<close>: the nested activations of \<^verbatim>\<open>_recursive\<close> never number more than
  \<open>rows * cols + 1\<close>. The bound \<open>rows * cols\<close> itself is not enough: when the path covers the
  whole grid without ending at the end position, \<^verbatim>\<open>_recursive\<close> is still called on the
  four neighbours of its last cell, one level deeper, before those calls return at once.
\<close>

theorem solve_snake_terminates:
  "(\<exists>r. solve_snake depth start_pos end_pos sz ''non-recursive'' = Some r \<and>
        ((\<exists>p. r = Inr p) \<or> (\<exists>msg. r = Inl (ValueError msg)))) \<and>
   (fst sz * snd sz < int depth \<longrightarrow>
      (\<exists>r. solve_snake depth start_pos end_pos sz method = Some r \<and>
           ((\<exists>p. r = Inr p) \<or> (\<exists>msg. r = Inl (ValueError msg)))))"
proof -
  have nr: "\<exists>r. solve_snake depth start_pos end_pos sz ''non-recursive'' = Some r"
  proof (cases "valid_pos start_pos sz \<and> valid_pos end_pos sz \<and> start_pos \<noteq> end_pos")
    case True
    then show ?thesis
      using solve_non_recursive[of start_pos sz end_pos depth] by simp
  next
    case False
    then show ?thesis
      by (auto simp: solve_snake_def)
  qed
  have "\<exists>r. solve_snake depth start_pos end_pos sz method = Some r"
    if d: "fst sz * snd sz < int depth"
  proof (cases "valid_pos start_pos sz \<and> valid_pos end_pos sz \<and> start_pos \<noteq> end_pos \<and>
      method = ''recursive''")
    case True
    then show ?thesis
      using solve_recursive[of start_pos sz end_pos depth] d by simp
  next
    case False
    show ?thesis
    proof (cases "method = ''non-recursive''")
      case True
      then show ?thesis
        using nr by simp
    next
      case nnr: False
      then show ?thesis
        using False by (auto simp: solve_snake_def)
    qed
  qed
  with nr show ?thesis
    using solve_snake_outcome by blast
qed

theorem solve_snake_terminates_witness:
  "fst (1, 3 :: int) * snd (1 :: int, 3) < int 4 \<and>
   solve_snake 4 (0, 0) (0, 1) (1, 3) ''recursive'' = Some (Inr []) \<and>
   solve_snake 4 (0, 0) (0, 1) (1, 3) ''non-recursive'' = Some (Inr [])"
proof -
  have "solve_snake 4 (0, 0) (0, 1) (1, 3) ''recursive'' = Some (Inr [])"
    "solve_snake 4 (0, 0) (0, 1) (1, 3) ''non-recursive'' = Some (Inr [])"
    by code_simp+
  with solve_snake_terminates[of 4 "(0, 0)" "(0, 1)" "(1, 3)" "''recursive''"] show ?thesis
    by simp
qed

text \<open>
  The claim's bound fails on the 1 x 3 grid from (0, 0) to (0, 1): the request is valid, and a
  recursion depth of \<open>rows * cols = 3\<close> does not let the recursive method return.
\<close>

theorem recursion_depth_counterexample:
  "valid_pos (0, 0) (1, 3) \<and> valid_pos (0, 1) (1, 3) \<and> (0 :: int, 0 :: int) \<noteq> (0, 1) \<and>
   solve_snake (nat (fst (1, 3 :: int) * snd (1 :: int, 3))) (0, 0) (0, 1) (1, 3) ''recursive'' = None"
  by code_simp

text \<open>
  C7. On the 1 x 4 grid with start (0, 0) and end (0, 3) both methods return exactly the path
  (0, 0), (0, 1), (0, 2), (0, 3); the recursive method needs a recursion depth of 4 for it.
\<close>

theorem straight_line_1x4:
  assumes "4 \<le> depth"
  shows "solve_snake depth (0, 0) (0, 3) (1, 4) ''recursive'' =
           Some (Inr [(0, 0), (0, 1), (0, 2), (0, 3)]) \<and>
         solve_snake depth (0, 0) (0, 3) (1, 4) ''non-recursive'' =
           Some (Inr [(0, 0), (0, 1), (0, 2), (0, 3)])"
proof -
  have "solve_snake 4 (0, 0) (0, 3) (1, 4) ''recursive'' =
      Some (Inr [(0, 0), (0, 1), (0, 2), (0, 3)])"
    by code_simp
  then have r: "solve_snake depth (0, 0) (0, 3) (1, 4) ''recursive'' =
      Some (Inr [(0, 0), (0, 1), (0, 2), (0, 3)])"
    using assms by (rule solve_snake_mono)
  have "solve_snake 0 (0, 0) (0, 3) (1, 4) ''non-recursive'' =
      Some (Inr [(0, 0), (0, 1), (0, 2), (0, 3)])"
    by code_simp
  then have "solve_snake depth (0, 0) (0, 3) (1, 4) ''non-recursive'' =
      Some (Inr [(0, 0), (0, 1), (0, 2), (0, 3)])"
    by (rule solve_snake_mono) simp
  with r show ?thesis by simp
qed

theorem straight_line_1x4_witness:
  "(4 :: nat) \<le> 4 \<and>
   solve_snake 4 (0, 0) (0, 3) (1, 4) ''recursive'' =
     Some (Inr [(0, 0), (0, 1), (0, 2), (0, 3)]) \<and>
   solve_snake 4 (0, 0) (0, 3) (1, 4) ''non-recursive'' =
     Some (Inr [(0, 0), (0, 1), (0, 2), (0, 3)])"
  using straight_line_1x4[of 4] by simp

text \<open>
  C8. For a non-empty path whose cells all lie in the grid (as those of every found path do)
  and whose first and last cells differ, \<open>print_path\<close> prints an empty line, the character
  grid and an empty line. The grid has exactly \<open>2 * rows - 1\<close> lines of exactly
  \<open>4 * cols - 3\<close> characters each, and it contains exactly one \<open>S\<close>, at the place of the
  first cell, and exactly one \<open>E\<close>, at the place of the last cell.
\<close>

theorem print_path_grid:
  assumes "pts \<noteq> []" and "\<forall>c\<in>set pts. valid_pos c sz" and "hd pts \<noteq> last pts"
  shows "\<exists>chrs. print_path pts sz = Inr ([] # chrs @ [[]]) \<and>
           int (length chrs) = 2 * fst sz - 1 \<and>
           (\<forall>row\<in>set chrs. int (length row) = 4 * snd sz - 3) \<and>
           count_list (concat chrs) chr_S = 1 \<and>
           count_list (concat chrs) chr_E = 1 \<and>
           chrs ! nat (2 * fst (hd pts)) ! nat (4 * snd (hd pts)) = chr_S \<and>
           chrs ! nat (2 * fst (last pts)) ! nat (4 * snd (last pts)) = chr_E"
proof -
  let ?shp = "(2 * fst sz - 1, 4 * snd sz - 3)"
  from print_path_ok[OF assms(1,2)] assms(3)
  obtain a where out: "print_path pts sz = Inr ([] # data a @ [[]])" and wf: "wf_arr a ?shp"
    and mE: "marked_at a ?shp chr_E (last pts)" and mS: "marked_at a ?shp chr_S (hd pts)"
    by blast
  have vh: "valid_pos (hd pts) sz" and vl: "valid_pos (last pts) sz"
    using assms(1,2) by simp_all
  have len: "int (length (data a)) = 2 * fst sz - 1"
    and rows: "\<forall>row\<in>set (data a). int (length row) = 4 * snd sz - 3"
    using wf by (auto simp: wf_arr_def)
  show ?thesis
    using out len rows marked_at_cell[OF wf mS vh] marked_at_cell[OF wf mE vl]
    by (intro exI[of _ "data a"]) simp
qed

theorem print_path_grid_witness:
  "[(0, 0), (1, 0), (1, 1), (0, 1)] \<noteq> ([] :: GridPt list) \<and>
   valid_pos (0, 0) (2, 2) \<and> valid_pos (1, 0) (2, 2) \<and> valid_pos (1, 1) (2, 2) \<and>
   valid_pos (0, 1) (2, 2) \<and>
   hd [(0, 0), (1, 0), (1, 1), (0, 1)] \<noteq> last [(0, 0), (1, 0), (1, 1), (0 :: int, 1 :: int)] \<and>
   print_path [(0, 0), (1, 0), (1, 1), (0, 1)] (2, 2) =
     Inr [[],
          [chr_S, chr_space, chr_space, chr_space, chr_E],
          [chr_down, chr_space, chr_space, chr_space, chr_up],
          [chr_circle, chr_space, chr_right, chr_space, chr_circle],
          []] \<and>
   (\<exists>chrs. print_path [(0, 0), (1, 0), (1, 1), (0, 1)] (2, 2) = Inr ([] # chrs @ [[]]) \<and>
      int (length chrs) = 2 * 2 - 1 \<and>
      count_list (concat chrs) chr_S = 1 \<and> count_list (concat chrs) chr_E = 1)"
proof -
  have v: "\<forall>c\<in>set [(0, 0), (1, 0), (1, 1), (0, 1)]. valid_pos c (2, 2)"
    by (simp add: valid_pos_def)
  have ne: "[(0, 0), (1, 0), (1, 1), (0, 1)] \<noteq> ([] :: GridPt list)"
    and d: "hd [(0, 0), (1, 0), (1, 1), (0, 1)] \<noteq> last [(0, 0), (1, 0), (1, 1), (0 :: int, 1 :: int)]"
    by simp_all
  have run: "print_path [(0, 0), (1, 0), (1, 1), (0, 1)] (2, 2) =
     Inr [[],
          [chr_S, chr_space, chr_space, chr_space, chr_E],
          [chr_down, chr_space, chr_space, chr_space, chr_up],
          [chr_circle, chr_space, chr_right, chr_space, chr_circle],
          []]"
    by code_simp
  from print_path_grid[OF ne v d]
  obtain chrs where c: "print_path [(0, 0), (1, 0), (1, 1), (0, 1)] (2, 2) = Inr ([] # chrs @ [[]])"
    "int (length chrs) = 2 * fst (2 :: int, 2 :: int) - 1"
    "count_list (concat chrs) chr_S = 1" "count_list (concat chrs) chr_E = 1"
    by blast
  have "\<exists>chrs. print_path [(0, 0), (1, 0), (1, 1), (0, 1)] (2, 2) = Inr ([] # chrs @ [[]]) \<and>
      int (length chrs) = 2 * 2 - 1 \<and>
      count_list (concat chrs) chr_S = 1 \<and> count_list (concat chrs) chr_E = 1"
    using c by (intro exI[of _ chrs]) simp
  then show ?thesis
    using v ne d run by simp
qed

text \<open>
  C9 (as the code has it). \<open>print_path\<close> raises no error for a non-empty path whose cells
  all lie in the grid, which is what the driver passes to it: \<^verbatim>\<open>main\<close> calls it under
  \<^verbatim>\<open>if path:\<close> only. Given the empty path (and positive dimensions) it does not render
  anything: \<^verbatim>\<open>path[0]\<close> raises \<open>IndexError\<close>.
\<close>

theorem print_path_errors:
  "(pts \<noteq> [] \<and> (\<forall>c\<in>set pts. valid_pos c sz) \<longrightarrow> (\<exists>out. print_path pts sz = Inr out)) \<and>
   (0 < fst sz \<and> 0 < snd sz \<longrightarrow> print_path [] sz = Inl IndexError)"
proof (intro conjI impI)
  assume "pts \<noteq> [] \<and> (\<forall>c\<in>set pts. valid_pos c sz)"
  then show "\<exists>out. print_path pts sz = Inr out"
    using print_path_ok[of pts sz] by blast
next
  assume "0 < fst sz \<and> 0 < snd sz"
  then show "print_path [] sz = Inl IndexError"
    by (simp add: print_path_def np_full_def Let_def)
qed

theorem print_path_errors_witness:
  "[(0, 0), (0, 1)] \<noteq> ([] :: GridPt list) \<and> valid_pos (0, 0) (1, 2) \<and> valid_pos (0, 1) (1, 2) \<and>
   (\<exists>out. print_path [(0, 0), (0, 1)] (1, 2) = Inr out) \<and>
   (0 :: int) < fst (1 :: int, 2 :: int) \<and> (0 :: int) < snd (1 :: int, 2 :: int) \<and>
   print_path [] (1, 2) = Inl IndexError"
proof -
  have v: "valid_pos (0, 0) (1, 2)" "valid_pos (0, 1) (1, 2)"
    by (simp_all add: valid_pos_def)
  from print_path_errors[of "[(0, 0), (0, 1)]" "(1, 2)"] v
  have "\<exists>out. print_path [(0, 0), (0, 1)] (1, 2) = Inr out"
    by simp
  moreover from print_path_errors[of "[]" "(1, 2)"]
  have "print_path [] (1, 2) = Inl IndexError"
    by simp
  ultimately show ?thesis
    using v by simp
qed

text \<open>
  The claim fails on the empty path, which makes the renderer raise instead of rendering
  nothing or an empty grid; and the empty path is not its only error condition, a cell off the
  grid makes it raise as well.
\<close>

theorem print_path_empty_counterexample:
  "print_path [] (2, 2) = Inl IndexError \<and> print_path [(5, 5)] (2, 2) = Inl IndexError"
  by code_simp

text \<open>
  C10. No call of \<open>solve_snake\<close>, whatever its arguments and its method, ends in an index
  fault: neither numpy's \<open>IndexError\<close> nor an access with a negative index, which numpy would
  wrap around. Every access to \<^verbatim>\<open>visited\<close> is at a position that \<open>valid_pos\<close> has accepted
  (the start position, checked by \<open>solve_snake\<close>; a candidate position, checked just before;
  a position on the path, checked when it was appended). The only exception a call raises is
  the \<open>ValueError\<close> of a violated precondition.
\<close>

theorem visited_index_safe:
  "solve_snake depth start_pos end_pos sz method \<noteq> Some (Inl IndexError) \<and>
   solve_snake depth start_pos end_pos sz method \<noteq> Some (Inl NegativeIndex)"
  using solve_snake_error[of depth start_pos end_pos sz "method"] by auto

end
